theory Spec2Isabelle
  imports Complex_Main "HOL-Library.Log_Nat" "HOL-Library.Word" "HOL-Library.AList"
    "HOL-Library.Multiset"
begin

section \<open>Python values used by the mosaic scripts\<close>

text \<open>
  The exceptions that the modelled functions of \<^verbatim>\<open>generatePhotoMosaicByTile.py\<close> and
  \<^verbatim>\<open>generatePhotoMosaicCyclePhotos.py\<close> can raise. The three \<^verbatim>\<open>ValueError\<close>s raised by
  the scripts themselves are told apart by their message.
\<close>

datatype error =
    InvalidTileSource      \<comment> \<open>\<^verbatim>\<open>ValueError("Invalid TILE_IMAGES_SOURCE: ...")\<close>\<close>
  | NoValidTiles           \<comment> \<open>\<^verbatim>\<open>ValueError("No valid tile images were loaded from the source.")\<close>\<close>
  | TileListEmpty          \<comment> \<open>\<^verbatim>\<open>ValueError("Cannot find best match tile: Tile list is empty.")\<close>\<close>
  | NanToInteger           \<comment> \<open>\<^verbatim>\<open>ValueError\<close> of \<^verbatim>\<open>int(float('nan'))\<close>\<close>
  | OverflowError
  | ZeroDivisionError
  | IndexError

subsection \<open>Floats\<close>

text \<open>
  A Python \<^verbatim>\<open>float\<close> is an IEEE 754 binary64 number: a finite value (a rational; the two
  zeros are not told apart, nothing below depends on the sign of zero), an infinity or a NaN.
  Every arithmetic operation returns the exact result rounded to the nearest representable
  number, ties to even.
\<close>

datatype pyfloat = Finite rat | PosInf | NegInf | NaN

definition round_half_even :: "rat \<Rightarrow> int" where
  "round_half_even x =
     (let f = \<lfloor>x\<rfloor>; d = x - of_int f
      in if d < 1 / 2 then f else if 1 / 2 < d then f + 1 else if even f then f else f + 1)"

text \<open>\<open>binade x\<close> is the exponent \<open>e\<close> with \<open>2 powi e \<le> x < 2 powi (e + 1)\<close>, for \<open>0 < x\<close>.\<close>

definition binade :: "rat \<Rightarrow> int" where
  "binade x =
     (case quotient_of x of (a, b) \<Rightarrow>
        let e = bitlen a - bitlen b in if 2 powi e \<le> x then e else e - 1)"

text \<open>The spacing of the doubles around \<open>x\<close>: 53 significant bits, subnormals below \<open>2 powi -1022\<close>.\<close>

definition ulp :: "rat \<Rightarrow> rat" where
  "ulp x = 2 powi (max (binade \<bar>x\<bar>) (- 1022) - 52)"

text \<open>
  Rounding an exact result to a double. The largest double is \<open>2 ^ 1024 - 2 ^ 971\<close>; from
  the midpoint \<open>2 ^ 1024 - 2 ^ 970\<close> on, the result is an infinity.
\<close>

definition fl64 :: "rat \<Rightarrow> pyfloat" where
  "fl64 x =
     (if x = 0 then Finite 0
      else if 2 ^ 1024 - 2 ^ 970 \<le> \<bar>x\<bar> then (if 0 < x then PosInf else NegInf)
      else Finite (of_int (round_half_even (x / ulp x)) * ulp x))"

text \<open>\<^verbatim>\<open>a / b\<close> on two Python ints: the correctly rounded quotient.\<close>

definition py_truediv :: "int \<Rightarrow> int \<Rightarrow> error + pyfloat" where
  "py_truediv a b =
     (if b = 0 then Inl ZeroDivisionError
      else case fl64 (of_int a / of_int b) of
             Finite q \<Rightarrow> Inr (Finite q)
           | _ \<Rightarrow> Inl OverflowError)"

text \<open>\<^verbatim>\<open>x * y\<close> on two floats.\<close>

fun float_mul :: "pyfloat \<Rightarrow> pyfloat \<Rightarrow> pyfloat" where
  "float_mul NaN _ = NaN"
| "float_mul _ NaN = NaN"
| "float_mul (Finite a) (Finite b) = fl64 (a * b)"
| "float_mul (Finite a) PosInf = (if a = 0 then NaN else if 0 < a then PosInf else NegInf)"
| "float_mul (Finite a) NegInf = (if a = 0 then NaN else if 0 < a then NegInf else PosInf)"
| "float_mul PosInf (Finite b) = (if b = 0 then NaN else if 0 < b then PosInf else NegInf)"
| "float_mul NegInf (Finite b) = (if b = 0 then NaN else if 0 < b then NegInf else PosInf)"
| "float_mul PosInf PosInf = PosInf"
| "float_mul PosInf NegInf = NegInf"
| "float_mul NegInf PosInf = NegInf"
| "float_mul NegInf NegInf = PosInf"

text \<open>Truncation toward zero, as done by \<^verbatim>\<open>int(x)\<close> and by a C cast.\<close>

definition trunc :: "rat \<Rightarrow> int" where
  "trunc x = (if 0 \<le> x then \<lfloor>x\<rfloor> else \<lceil>x\<rceil>)"

text \<open>\<^verbatim>\<open>int(x)\<close> on a float; infinities and NaN raise.\<close>

fun py_int :: "pyfloat \<Rightarrow> error + int" where
  "py_int (Finite x) = Inr (trunc x)"
| "py_int PosInf = Inl OverflowError"
| "py_int NegInf = Inl OverflowError"
| "py_int NaN = Inl NanToInteger"

section \<open>Grid dimensions\<close>

text \<open>
  \<^verbatim>\<open>generate_mosaic\<close>, both scripts:
  \<^verbatim>\<open>grid_w = max(1, int(base_width / tile_w * grid_resolution_factor))\<close>, and the same for
  \<^verbatim>\<open>grid_h\<close>. The base and tile sizes are ints, the factor is a float.
\<close>

definition grid_dim :: "int \<Rightarrow> int \<Rightarrow> pyfloat \<Rightarrow> error + int" where
  "grid_dim base_len tile_len grid_resolution_factor =
     (case py_truediv base_len tile_len of
        Inl e \<Rightarrow> Inl e
      | Inr q \<Rightarrow>
          (case py_int (float_mul q grid_resolution_factor) of
             Inl e \<Rightarrow> Inl e
           | Inr n \<Rightarrow> Inr (max 1 n)))"

definition grid_dims :: "int \<times> int \<Rightarrow> int \<times> int \<Rightarrow> pyfloat \<Rightarrow> error + int \<times> int" where
  "grid_dims base_size tile_size grid_resolution_factor =
     (case grid_dim (fst base_size) (fst tile_size) grid_resolution_factor of
        Inl e \<Rightarrow> Inl e
      | Inr grid_w \<Rightarrow>
          (case grid_dim (snd base_size) (snd tile_size) grid_resolution_factor of
             Inl e \<Rightarrow> Inl e
           | Inr grid_h \<Rightarrow> Inr (grid_w, grid_h)))"

section \<open>Images and their average colour\<close>

text \<open>
  A decoded image in mode RGB: its size and its pixels in row-major order, three 8-bit
  channels each. A colour, as \<^verbatim>\<open>get_average_rgb\<close> and \<^verbatim>\<open>getpixel\<close> return it, is a triple of ints.
\<close>

type_synonym pixel = "8 word \<times> 8 word \<times> 8 word"

type_synonym color = "int \<times> int \<times> int"

record image =
  width :: nat
  height :: nat
  pixels :: "pixel list"

definition red :: "pixel \<Rightarrow> int" where
  "red p = (case p of (r, g, b) \<Rightarrow> uint r)"

definition green :: "pixel \<Rightarrow> int" where
  "green p = (case p of (r, g, b) \<Rightarrow> uint g)"

definition blue :: "pixel \<Rightarrow> int" where
  "blue p = (case p of (r, g, b) \<Rightarrow> uint b)"

text \<open>
  \<^verbatim>\<open>np.mean(img_array, axis=(0, 1))\<close> on the float64 array of one channel: the sum of the
  values divided by their number, NaN for no values. The partial sums are integers; below
  \<open>2 ^ 53\<close> they are exact in binary64, so that the sum is the exact one for every image of at
  most \<open>2 ^ 45\<close> pixels, and only the division rounds.
\<close>

definition np_mean :: "int list \<Rightarrow> pyfloat" where
  "np_mean vs = (if vs = [] then NaN else fl64 (of_int (sum_list vs) / of_nat (length vs)))"

text \<open>
  \<^verbatim>\<open>astype(int)\<close>: a C cast to int64, truncating toward zero. The cast of a NaN or of an
  infinity is not specified by C; on x86-64 it yields the least int64, which is the value
  taken here. It is reached only for an image without pixels. (The means of 8-bit channels
  are below 256, far from the int64 range.)
\<close>

definition astype_int :: "pyfloat \<Rightarrow> int" where
  "astype_int x = (case x of Finite r \<Rightarrow> trunc r | _ \<Rightarrow> - (2 ^ 63))"

definition get_average_rgb :: "image \<Rightarrow> color" where
  "get_average_rgb img =
     (let img_array = pixels img;
          avg_color = (np_mean (map red img_array), np_mean (map green img_array),
                       np_mean (map blue img_array))
      in case avg_color of (r, g, b) \<Rightarrow> (astype_int r, astype_int g, astype_int b))"

text \<open>The arithmetic mean of a list of integers, as a rational number.\<close>

definition arithmetic_mean :: "int list \<Rightarrow> rat" where
  "arithmetic_mean vs = of_int (sum_list vs) / of_nat (length vs)"

section \<open>Loading the tiles\<close>

text \<open>
  \<^verbatim>\<open>load_tile_images(source_path, tile_size)\<close>, the same in both scripts. What the function
  reads from the file system is its input here: whether the path is a directory
  (\<^verbatim>\<open>os.path.isdir\<close>), a zip archive (\<^verbatim>\<open>zipfile.is_zipfile\<close>) or neither, and, for every entry
  in listing order, its name and what \<^verbatim>\<open>Image.open(...).convert('RGB')\<close> makes of it: an
  image, or \<open>None\<close> when it raises (the \<^verbatim>\<open>try\<close> block catches every \<^verbatim>\<open>Exception\<close>).
\<close>

record candidate =
  filename :: string
  decoded :: "image option"

datatype tile_source = Directory "candidate list" | ZipFile "candidate list" | NotASource

text \<open>
  \<^verbatim>\<open>img.resize(tile_size, resampling_filter)\<close>. The Lanczos filter is Pillow's; the colour it
  gives to each pixel of the result is a parameter \<open>resample\<close>. The result has the requested
  size; Pillow raises \<^verbatim>\<open>ValueError\<close> (\<open>None\<close> here) when a side of the requested size is
  not positive.
\<close>

type_synonym resampler = "nat \<times> nat \<Rightarrow> image \<Rightarrow> nat \<times> nat \<Rightarrow> pixel"

definition resize :: "resampler \<Rightarrow> image \<Rightarrow> nat \<times> nat \<Rightarrow> image option" where
  "resize resample img new_size =
     (case new_size of (w, h) \<Rightarrow>
        if w = 0 \<or> h = 0 then None
        else Some \<lparr>width = w, height = h,
                   pixels = map (\<lambda>i. resample (w, h) img (i mod w, i div w)) [0..<w * h]\<rparr>)"

text \<open>\<^verbatim>\<open>str.lower\<close>, \<^verbatim>\<open>str.endswith\<close> and \<^verbatim>\<open>str.startswith\<close> on ASCII names.\<close>

definition lower :: "string \<Rightarrow> string" where
  "lower s = map (\<lambda>c. if 65 \<le> (of_char c :: nat) \<and> (of_char c :: nat) \<le> 90
                        then char_of (of_char c + (32 :: nat)) else c) s"

definition endswith :: "string \<Rightarrow> string \<Rightarrow> bool" where
  "endswith s suf \<longleftrightarrow> length suf \<le> length s \<and> drop (length s - length suf) s = suf"

definition startswith :: "string \<Rightarrow> string \<Rightarrow> bool" where
  "startswith s pre \<longleftrightarrow> take (length pre) s = pre"

definition image_extensions :: "string list" where
  "image_extensions = [''.png'', ''.jpg'', ''.jpeg'', ''.bmp'', ''.gif'', ''.tiff'']"

definition is_image_name :: "string \<Rightarrow> bool" where
  "is_image_name name \<longleftrightarrow> (\<exists>ext \<in> set image_extensions. endswith (lower name) ext)"

text \<open>
  The body of the \<^verbatim>\<open>try\<close> block for one candidate: decode, resize, average; \<open>None\<close> when
  any step raises.
\<close>

definition load_one :: "resampler \<Rightarrow> nat \<times> nat \<Rightarrow> candidate \<Rightarrow> (image \<times> color) option" where
  "load_one resample tile_size entry =
     (case decoded entry of
        None \<Rightarrow> None
      | Some opened \<Rightarrow>
          (case resize resample opened tile_size of
             None \<Rightarrow> None
           | Some img \<Rightarrow> Some (img, get_average_rgb img)))"

text \<open>
  The two \<^verbatim>\<open>for\<close> loops, with the lists \<^verbatim>\<open>tiles\<close> and \<^verbatim>\<open>avg_colors\<close> they append to. They
  differ in the filter on the name: the zip loop also skips names starting with
  \<^verbatim>\<open>__MACOSX\<close>. The third list collects the file names of the warnings the loop prints
  (\<^verbatim>\<open>Warning: Skipping file ...\<close>); the other output of the scripts is not modelled.
\<close>

definition wanted :: "bool \<Rightarrow> string \<Rightarrow> bool" where
  "wanted in_zip name \<longleftrightarrow>
     is_image_name name \<and> (in_zip \<longrightarrow> \<not> startswith name ''__MACOSX'')"

fun load_loop ::
  "resampler \<Rightarrow> nat \<times> nat \<Rightarrow> bool \<Rightarrow> candidate list
     \<Rightarrow> image list \<times> color list \<times> string list \<Rightarrow> image list \<times> color list \<times> string list" where
  "load_loop resample tile_size in_zip [] (tiles, avg_colors, warnings) =
     (tiles, avg_colors, warnings)"
| "load_loop resample tile_size in_zip (entry # entries) (tiles, avg_colors, warnings) =
     (if wanted in_zip (filename entry) then
        (case load_one resample tile_size entry of
           Some (img, avg_color) \<Rightarrow>
             load_loop resample tile_size in_zip entries
               (tiles @ [img], avg_colors @ [avg_color], warnings)
         | None \<Rightarrow>
             load_loop resample tile_size in_zip entries
               (tiles, avg_colors, warnings @ [filename entry]))
      else load_loop resample tile_size in_zip entries (tiles, avg_colors, warnings))"

text \<open>The check after the loops: \<^verbatim>\<open>if not tiles: raise ValueError(...)\<close>.\<close>

definition check_loaded ::
  "image list \<times> color list \<times> string list \<Rightarrow> (error + image list \<times> color list) \<times> string list" where
  "check_loaded loaded =
     (case loaded of (tiles, avg_colors, warnings) \<Rightarrow>
        (if tiles = [] then Inl NoValidTiles else Inr (tiles, avg_colors), warnings))"

definition load_tile_images ::
  "resampler \<Rightarrow> tile_source \<Rightarrow> nat \<times> nat \<Rightarrow> (error + image list \<times> color list) \<times> string list" where
  "load_tile_images resample source_path tile_size =
     (case source_path of
        Directory entries \<Rightarrow> check_loaded (load_loop resample tile_size False entries ([], [], []))
      | ZipFile entries \<Rightarrow> check_loaded (load_loop resample tile_size True entries ([], [], []))
      | NotASource \<Rightarrow> (Inl InvalidTileSource, []))"

text \<open>
  A candidate survives loading when its name is wanted and its \<^verbatim>\<open>try\<close> block does not raise;
  it fails when its name is wanted and the block raises.
\<close>

definition survives :: "resampler \<Rightarrow> nat \<times> nat \<Rightarrow> bool \<Rightarrow> candidate \<Rightarrow> bool" where
  "survives resample tile_size in_zip entry \<longleftrightarrow>
     wanted in_zip (filename entry) \<and> load_one resample tile_size entry \<noteq> None"

definition fails :: "resampler \<Rightarrow> nat \<times> nat \<Rightarrow> bool \<Rightarrow> candidate \<Rightarrow> bool" where
  "fails resample tile_size in_zip entry \<longleftrightarrow>
     wanted in_zip (filename entry) \<and> load_one resample tile_size entry = None"

definition entries_of :: "tile_source \<Rightarrow> candidate list" where
  "entries_of source_path =
     (case source_path of Directory entries \<Rightarrow> entries | ZipFile entries \<Rightarrow> entries
      | NotASource \<Rightarrow> [])"

definition is_zip :: "tile_source \<Rightarrow> bool" where
  "is_zip source_path = (case source_path of ZipFile _ \<Rightarrow> True | _ \<Rightarrow> False)"

section \<open>Nearest-colour lookup and tile selection\<close>

text \<open>
  \<^verbatim>\<open>scipy.spatial.KDTree\<close> is a library class. \<^verbatim>\<open>find_best_match_tile\<close> receives the tree as
  an argument and calls \<^verbatim>\<open>tree.query(target, k=1)\<close> on it; a tree is modelled by that method:
  the index it returns for a target colour, \<open>None\<close> when the call raises.
\<close>

type_synonym kdtree = "color \<Rightarrow> nat option"

text \<open>The squared Euclidean distance of two colours, and the distance.\<close>

definition dist2 :: "color \<Rightarrow> color \<Rightarrow> int" where
  "dist2 a b =
     (case a of (r1, g1, b1) \<Rightarrow> case b of (r2, g2, b2) \<Rightarrow>
        (r1 - r2) ^ 2 + (g1 - g2) ^ 2 + (b1 - b2) ^ 2)"

definition euclidean :: "color \<Rightarrow> color \<Rightarrow> real" where
  "euclidean a b = sqrt (of_int (dist2 a b))"

text \<open>
  What the library documents for \<^verbatim>\<open>KDTree(data).query(x, k=1)\<close>: the position in \<open>data\<close> of a
  point nearest to \<open>x\<close>. Which of several nearest points is returned is not documented.
\<close>

definition nearest_index :: "color list \<Rightarrow> color \<Rightarrow> nat \<Rightarrow> bool" where
  "nearest_index points target i \<longleftrightarrow>
     i < length points \<and> (\<forall>j < length points. dist2 (points ! i) target \<le> dist2 (points ! j) target)"

text \<open>Python's \<^verbatim>\<open>xs[i]\<close> for a non-negative index.\<close>

definition list_get :: "'a list \<Rightarrow> nat \<Rightarrow> error + 'a" where
  "list_get xs i = (if i < length xs then Inr (xs ! i) else Inl IndexError)"

subsection \<open>\<^verbatim>\<open>generatePhotoMosaicByTile.py\<close>\<close>

definition find_best_match_tile :: "color \<Rightarrow> kdtree \<Rightarrow> image list \<Rightarrow> error + image" where
  "find_best_match_tile target_avg_color tile_avg_colors_kdtree tiles =
     (case tile_avg_colors_kdtree target_avg_color of
        None \<Rightarrow> (if tiles \<noteq> [] then list_get tiles 0 else Inl TileListEmpty)
      | Some index \<Rightarrow> list_get tiles index)"

text \<open>
  The selection as the specification words it: the first tile, in load order, whose average
  colour is the given one.
\<close>

definition first_tile_of_color :: "color \<Rightarrow> image list \<Rightarrow> color list \<Rightarrow> image option" where
  "first_tile_of_color c tiles avg_colors =
     map_option fst (find (\<lambda>(t, a). a = c) (zip tiles avg_colors))"

subsection \<open>\<^verbatim>\<open>generatePhotoMosaicCyclePhotos.py\<close>\<close>

text \<open>
  \<^verbatim>\<open>color_to_indices_map\<close>: a dict from an average colour to
  \<^verbatim>\<open>{'indices': [...], 'next_idx': int}\<close>. A dict keeps its keys in insertion order, and
  \<^verbatim>\<open>unique_colors_list = list(color_to_indices_map.keys())\<close> depends on that order, so it is an
  association list; \<open>AList.update\<close> replaces the value of a present key in place and
  appends an absent key, as assignment to a dict entry does.
\<close>

record tile_group =
  indices :: "nat list"
  next_idx :: nat

type_synonym color_map = "(color \<times> tile_group) list"

definition find_best_match_tile_cycle ::
  "color \<Rightarrow> kdtree \<Rightarrow> color list \<Rightarrow> image list \<Rightarrow> color_map \<Rightarrow> (error + image) \<times> color_map" where
  "find_best_match_tile_cycle target_avg_color unique_color_kdtree unique_colors_list tiles
       color_to_indices_map =
     (case unique_color_kdtree target_avg_color of
        None \<Rightarrow>
          (if tiles \<noteq> [] then
             (case unique_colors_list of
                first_group_key # _ \<Rightarrow>
                  (case map_of color_to_indices_map first_group_key of
                     Some first_group \<Rightarrow>
                       (if indices first_group \<noteq> []
                        then (list_get tiles (indices first_group ! 0), color_to_indices_map)
                        else (list_get tiles 0, color_to_indices_map))
                   | None \<Rightarrow> (list_get tiles 0, color_to_indices_map))
              | [] \<Rightarrow> (list_get tiles 0, color_to_indices_map))
           else (Inl TileListEmpty, color_to_indices_map))
      | Some unique_color_index \<Rightarrow>
          (case list_get unique_colors_list unique_color_index of
             Inl e \<Rightarrow> (Inl e, color_to_indices_map)
           | Inr matched_unique_color \<Rightarrow>
               (case map_of color_to_indices_map matched_unique_color of
                  None \<Rightarrow> (list_get tiles 0, color_to_indices_map)
                | Some group_info \<Rightarrow>
                    if indices group_info = [] then (list_get tiles 0, color_to_indices_map)
                    else
                      (case list_get (indices group_info) (next_idx group_info) of
                         Inl e \<Rightarrow> (Inl e, color_to_indices_map)
                       | Inr selected_tile_original_index \<Rightarrow>
                           (list_get tiles selected_tile_original_index,
                            AList.update matched_unique_color
                              (group_info\<lparr>next_idx :=
                                 (next_idx group_info + 1) mod length (indices group_info)\<rparr>)
                              color_to_indices_map)))))"

text \<open>
  Step 3 of \<^verbatim>\<open>generate_mosaic\<close>: grouping the tile positions by average colour. \<open>i\<close> is the
  counter of \<^verbatim>\<open>enumerate\<close>.
\<close>

definition add_to_group :: "color_map \<Rightarrow> nat \<Rightarrow> color \<Rightarrow> color_map" where
  "add_to_group color_to_indices_map i avg_color_tuple =
     (let m = (if map_of color_to_indices_map avg_color_tuple = None
               then AList.update avg_color_tuple \<lparr>indices = [], next_idx = 0\<rparr> color_to_indices_map
               else color_to_indices_map)
      in case map_of m avg_color_tuple of
           Some group_info \<Rightarrow>
             AList.update avg_color_tuple (group_info\<lparr>indices := indices group_info @ [i]\<rparr>) m
         | None \<Rightarrow> m)"

fun group_loop :: "color_map \<Rightarrow> nat \<Rightarrow> color list \<Rightarrow> color_map" where
  "group_loop color_to_indices_map i [] = color_to_indices_map"
| "group_loop color_to_indices_map i (avg_color_tuple # rest) =
     group_loop (add_to_group color_to_indices_map i avg_color_tuple) (Suc i) rest"

definition group_tiles :: "color list \<Rightarrow> color_map" where
  "group_tiles tile_avg_colors_list = group_loop [] 0 tile_avg_colors_list"

text \<open>
  The colour map that grouping the average colours \<open>cols\<close> yields: one key per colour that
  occurs, holding the positions of that colour in increasing order and the cursor 0.
\<close>

definition grouped :: "color list \<Rightarrow> color_map \<Rightarrow> bool" where
  "grouped cols m \<longleftrightarrow>
     distinct (map fst m) \<and>
     (\<forall>c. map_of m c =
            (if c \<in> set cols
             then Some \<lparr>indices = filter (\<lambda>i. cols ! i = c) [0..<length cols], next_idx = 0\<rparr>
             else None))"

text \<open>A caller making consecutive selections, the state passed from each call to the next.\<close>

fun select_all ::
  "('s \<Rightarrow> color \<Rightarrow> (error + image) \<times> 's) \<Rightarrow> 's \<Rightarrow> color list \<Rightarrow> (error + image) list \<times> 's" where
  "select_all select st [] = ([], st)"
| "select_all select st (q # qs) =
     (case select st q of (r, st') \<Rightarrow>
        (case select_all select st' qs of (rs, st'') \<Rightarrow> (r # rs, st'')))"

text \<open>The two selection policies as selectors over a render state.\<close>

definition nearest_match :: "kdtree \<Rightarrow> image list \<Rightarrow> 's \<Rightarrow> color \<Rightarrow> (error + image) \<times> 's" where
  "nearest_match tile_color_kdtree tiles st cell_avg_color =
     (find_best_match_tile cell_avg_color tile_color_kdtree tiles, st)"

definition cycling_match ::
  "kdtree \<Rightarrow> color list \<Rightarrow> image list \<Rightarrow> color_map \<Rightarrow> color \<Rightarrow> (error + image) \<times> color_map" where
  "cycling_match unique_color_kdtree unique_colors_list tiles color_to_indices_map cell_avg_color =
     find_best_match_tile_cycle cell_avg_color unique_color_kdtree unique_colors_list tiles
       color_to_indices_map"

text \<open>
  What grouping establishes and every selection keeps: the positions of a group are positions
  of the tile list, and the cursor of a non-empty group points into its list.
\<close>

definition valid_groups :: "image list \<Rightarrow> color_map \<Rightarrow> bool" where
  "valid_groups tiles m \<longleftrightarrow>
     (\<forall>(c, g) \<in> set m. (\<forall>i \<in> set (indices g). i < length tiles)
        \<and> (indices g \<noteq> [] \<longrightarrow> next_idx g < length (indices g)))"

section \<open>Assembling the mosaic\<close>

text \<open>The pixel of an image at column \<open>x\<close> and row \<open>y\<close>, and a pixel as a colour.\<close>

definition pixel_at :: "image \<Rightarrow> nat \<Rightarrow> nat \<Rightarrow> pixel" where
  "pixel_at img x y = pixels img ! (y * width img + x)"

definition pixel_color :: "pixel \<Rightarrow> color" where
  "pixel_color p = (red p, green p, blue p)"

text \<open>\<^verbatim>\<open>Image.new('RGB', size)\<close>: a black image.\<close>

definition new_image :: "nat \<times> nat \<Rightarrow> image" where
  "new_image new_size =
     (case new_size of (w, h) \<Rightarrow> \<lparr>width = w, height = h, pixels = replicate (w * h) (0, 0, 0)\<rparr>)"

text \<open>\<^verbatim>\<open>img.getpixel((x, y))\<close>; Pillow raises \<^verbatim>\<open>IndexError\<close> outside the image.\<close>

definition getpixel :: "image \<Rightarrow> nat \<times> nat \<Rightarrow> error + color" where
  "getpixel img xy =
     (case xy of (x, y) \<Rightarrow>
        if x < width img \<and> y < height img then Inr (pixel_color (pixel_at img x y))
        else Inl IndexError)"

text \<open>
  \<^verbatim>\<open>canvas.paste(im, (left, upper))\<close> with two RGB images: every pixel of the canvas that lies
  in the box of the size of \<open>im\<close> at \<open>(left, upper)\<close> is replaced by the pixel of \<open>im\<close>, the
  others are kept; what falls outside the canvas is clipped.
\<close>

definition paste :: "image \<Rightarrow> image \<Rightarrow> nat \<times> nat \<Rightarrow> image" where
  "paste canvas im box =
     (case box of (left, upper) \<Rightarrow>
        canvas\<lparr>pixels :=
          map (\<lambda>i. let x = i mod width canvas; y = i div width canvas
                    in if left \<le> x \<and> x < left + width im \<and> upper \<le> y \<and> y < upper + height im
                       then pixel_at im (x - left) (y - upper)
                       else pixels canvas ! i)
              [0..<length (pixels canvas)]\<rparr>)"

text \<open>
  The cells \<open>(r, c)\<close> in the order of the nested loops
  \<^verbatim>\<open>for r in range(grid_h): for c in range(grid_w)\<close>.
\<close>

definition grid_cells :: "nat \<Rightarrow> nat \<Rightarrow> (nat \<times> nat) list" where
  "grid_cells grid_w grid_h = List.product [0..<grid_h] [0..<grid_w]"

text \<open>
  The body of the loops, run over a list of cells: read the colour of the cell from the
  downscaled base image, select a tile, paste it at \<open>(c * tile_w, r * tile_h)\<close>. The selection
  call is the only difference between the two scripts; it is the parameter \<open>select\<close>, which
  also passes on the render state (the colour map with its cursors in the cycling script).
  An exception ends the loop.
\<close>

fun paint_cells ::
  "('s \<Rightarrow> color \<Rightarrow> (error + image) \<times> 's) \<Rightarrow> image \<Rightarrow> nat \<times> nat \<Rightarrow> (nat \<times> nat) list \<Rightarrow> 's
     \<Rightarrow> image \<Rightarrow> (error + image) \<times> 's" where
  "paint_cells select base_small_for_avg tile_size [] st mosaic_image = (Inr mosaic_image, st)"
| "paint_cells select base_small_for_avg tile_size ((r, c) # cells) st mosaic_image =
     (case getpixel base_small_for_avg (c, r) of
        Inl e \<Rightarrow> (Inl e, st)
      | Inr cell_avg_color \<Rightarrow>
          (case select st cell_avg_color of
             (Inl e, st') \<Rightarrow> (Inl e, st')
           | (Inr best_tile, st') \<Rightarrow>
               paint_cells select base_small_for_avg tile_size cells st'
                 (paste mosaic_image best_tile (c * fst tile_size, r * snd tile_size))))"

text \<open>
  Creating the canvas and assembling the mosaic (steps 5 and 6 of \<^verbatim>\<open>generate_mosaic\<close> in
  \<^verbatim>\<open>generatePhotoMosaicByTile.py\<close>, steps 6 and 7 in \<^verbatim>\<open>generatePhotoMosaicCyclePhotos.py\<close>).
\<close>

definition assemble ::
  "('s \<Rightarrow> color \<Rightarrow> (error + image) \<times> 's) \<Rightarrow> image \<Rightarrow> nat \<times> nat \<Rightarrow> nat \<times> nat \<Rightarrow> 's
     \<Rightarrow> (error + image) \<times> 's" where
  "assemble select base_small_for_avg grid_size tile_size st =
     (case grid_size of (grid_w, grid_h) \<Rightarrow> case tile_size of (tile_w, tile_h) \<Rightarrow>
        let mosaic_width = grid_w * tile_w;
            mosaic_height = grid_h * tile_h;
            mosaic_image = new_image (mosaic_width, mosaic_height)
        in paint_cells select base_small_for_avg tile_size (grid_cells grid_w grid_h) st
             mosaic_image)"

text \<open>The colour that the loop reads for a cell, and the part of the canvas a cell is pasted on.\<close>

definition cell_color :: "image \<Rightarrow> nat \<times> nat \<Rightarrow> color" where
  "cell_color base_small_for_avg cell =
     (case cell of (r, c) \<Rightarrow> pixel_color (pixel_at base_small_for_avg c r))"

definition region :: "nat \<times> nat \<Rightarrow> nat \<times> nat \<Rightarrow> (nat \<times> nat) set" where
  "region tile_size cell =
     (case tile_size of (tile_w, tile_h) \<Rightarrow> case cell of (r, c) \<Rightarrow>
        {c * tile_w ..< c * tile_w + tile_w} \<times> {r * tile_h ..< r * tile_h + tile_h})"

text \<open>An image whose pixel list has one pixel for each position.\<close>

definition full :: "image \<Rightarrow> bool" where
  "full img \<longleftrightarrow> length (pixels img) = width img * height img"

text \<open>Pasting a list of tiles, each on its cell, in the order of the list.\<close>

definition paste_all :: "image \<Rightarrow> nat \<times> nat \<Rightarrow> ((nat \<times> nat) \<times> image) list \<Rightarrow> image" where
  "paste_all canvas tile_size placed =
     foldl (\<lambda>cv (cell, t). paste cv t (snd cell * fst tile_size, fst cell * snd tile_size))
       canvas placed"

text \<open>
  Modelled from the spec: the query of the nearest-colour index. In the scripts it is
  \<^verbatim>\<open>scipy.spatial.KDTree(data).query(target, k=1)\<close>, a library method whose code is not in
  the repository. The specification has it return the colour at minimum Euclidean distance,
  ties broken deterministically by the internal ordering of the index; here the points are
  scanned in their order and the first nearest one wins. There is no tree over no points
  (\<^verbatim>\<open>generate_mosaic\<close> raises before building one); its query is \<open>None\<close>.
\<close>

fun nearest_scan :: "color \<Rightarrow> color list \<Rightarrow> nat" where
  "nearest_scan target [] = 0"
| "nearest_scan target [p] = 0"
| "nearest_scan target (p # q # ps) =
     (let i = nearest_scan target (q # ps)
      in if dist2 p target \<le> dist2 ((q # ps) ! i) target then 0 else Suc i)"

definition KDTree :: "color list \<Rightarrow> kdtree" where
  "KDTree points target = (if points = [] then None else Some (nearest_scan target points))"

section \<open>Concrete values for the examples\<close>

text \<open>
  Three 2 x 1 tiles: two different ones with the average colour (1, 1, 1), one of the single
  colour (9, 9, 9). An index that answers every query with position \<open>i\<close>, and an index whose
  query raises.
\<close>

definition tile_a :: image where
  "tile_a = \<lparr>width = 2, height = 1, pixels = [(0, 0, 0), (2, 2, 2)]\<rparr>"

definition tile_b :: image where
  "tile_b = \<lparr>width = 2, height = 1, pixels = [(2, 2, 2), (0, 0, 0)]\<rparr>"

definition tile_c :: image where
  "tile_c = \<lparr>width = 2, height = 1, pixels = [(9, 9, 9), (9, 9, 9)]\<rparr>"

definition answering :: "nat \<Rightarrow> kdtree" where
  "answering i target = Some i"

definition failing_tree :: kdtree where
  "failing_tree target = None"

definition two_groups :: color_map where
  "two_groups = [((1, 1, 1), \<lparr>indices = [0, 2], next_idx = 1\<rparr>),
                 ((9, 9, 9), \<lparr>indices = [1], next_idx = 0\<rparr>)]"

text \<open>
  A resampling filter that gives every pixel of the result the first pixel of the source, and
  a directory with two images, a file that does not decode and a file that is no image.
\<close>

definition first_pixel :: resampler where
  "first_pixel new_size img xy = (case pixels img of [] \<Rightarrow> (0, 0, 0) | p # _ \<Rightarrow> p)"

definition sample_directory :: tile_source where
  "sample_directory = Directory
     [\<lparr>filename = ''a.png'', decoded = Some tile_a\<rparr>,
      \<lparr>filename = ''broken.JPG'', decoded = None\<rparr>,
      \<lparr>filename = ''notes.txt'', decoded = Some tile_c\<rparr>,
      \<lparr>filename = ''c.gif'', decoded = Some tile_c\<rparr>]"

text \<open>A downscaled base image of two cells.\<close>

definition small_base :: image where
  "small_base = \<lparr>width = 2, height = 1, pixels = [(0, 0, 0), (9, 9, 9)]\<rparr>"
text \<open>An index that answers position 0 for black and position 1 for every other colour.\<close>

definition black_or_not :: kdtree where
  "black_or_not target = (if target = (0, 0, 0) then Some 0 else Some 1)"

section \<open>Facts about the float model\<close>

lemma bitlen_powi_bounds:
  assumes "0 < a"
  shows "(2::rat) powi (bitlen a - 1) \<le> of_int a" "of_int a < (2::rat) powi bitlen a"
proof -
  from assms have b1: "1 \<le> bitlen a" by (auto simp: bitlen_alt_def)
  from bitlen_bounds[OF assms] have lo: "2 ^ nat (bitlen a - 1) \<le> a" and hi: "a < 2 ^ nat (bitlen a)"
    by auto
  from lo have "(of_int (2 ^ nat (bitlen a - 1)) :: rat) \<le> of_int a" by (simp only: of_int_le_iff)
  then show "(2::rat) powi (bitlen a - 1) \<le> of_int a"
    using b1 by (simp add: power_int_def)
  from hi have "(of_int a :: rat) < of_int (2 ^ nat (bitlen a))" by (simp only: of_int_less_iff)
  then show "of_int a < (2::rat) powi bitlen a"
    using b1 by (simp add: power_int_def)
qed

lemma binade_bounds:
  assumes "0 < x"
  shows "2 powi binade x \<le> x \<and> x < 2 powi (binade x + 1)"
proof -
  obtain a b where q: "quotient_of x = (a, b)" by (cases "quotient_of x")
  have bpos: "0 < b" using quotient_of_denom_pos[OF q] .
  have xeq: "x = of_int a / of_int b" using quotient_of_div[OF q] .
  have apos: "0 < a" using assms bpos xeq by (simp add: zero_less_divide_iff)
  let ?e = "bitlen a - bitlen b"
  have B: "(0::rat) < of_int b" using bpos by simp
  have "x < 2 powi bitlen a / 2 powi (bitlen b - 1)"
  proof -
    have "x < 2 powi bitlen a / of_int b"
      unfolding xeq using bitlen_powi_bounds(2)[OF apos] B by (simp add: divide_strict_right_mono)
    also have "\<dots> \<le> 2 powi bitlen a / 2 powi (bitlen b - 1)"
      using bitlen_powi_bounds(1)[OF bpos] by (intro divide_left_mono) (auto intro!: mult_pos_pos B)
    finally show ?thesis .
  qed
  then have up: "x < 2 powi (?e + 1)"
    by (simp add: power_int_diff[symmetric] algebra_simps)
  have "2 powi (bitlen a - 1) / 2 powi bitlen b < x"
  proof -
    have "2 powi (bitlen a - 1) / 2 powi bitlen b < (2::rat) powi (bitlen a - 1) / of_int b"
      using bitlen_powi_bounds(2)[OF bpos] B by (intro divide_strict_left_mono) (auto intro!: mult_pos_pos)
    also have "\<dots> \<le> x"
      unfolding xeq using bitlen_powi_bounds(1)[OF apos] B by (simp add: divide_right_mono)
    finally show ?thesis .
  qed
  then have lo: "2 powi (?e - 1) < x"
    by (simp add: power_int_diff[symmetric] algebra_simps)
  show ?thesis
  proof (cases "2 powi ?e \<le> x")
    case True
    then have "binade x = ?e" by (simp add: binade_def q)
    with True up show ?thesis by simp
  next
    case False
    then have "binade x = ?e - 1" by (simp add: binade_def q)
    with False lo show ?thesis by simp
  qed
qed

lemma powi2_less_cancel: "(2::rat) powi a < 2 powi b \<Longrightarrow> a < b"
proof (rule ccontr)
  assume h: "(2::rat) powi a < 2 powi b" and n: "\<not> a < b"
  from n have "b \<le> a" by simp
  then have "(2::rat) powi b \<le> 2 powi a" by (intro power_int_increasing) auto
  with h show False by simp
qed

lemma binade_unique:
  assumes "2 powi e \<le> x" "x < 2 powi (e + 1)"
  shows "binade x = e"
proof -
  have xpos: "0 < x" using assms(1) by (smt (verit) zero_less_power_int zero_less_numeral less_le_trans)
  note b = binade_bounds[OF xpos]
  have "(2::rat) powi e < 2 powi (binade x + 1)" using assms(1) b by linarith
  then have 1: "e < binade x + 1" by (rule powi2_less_cancel)
  have "(2::rat) powi binade x < 2 powi (e + 1)" using assms(2) b by linarith
  then have 2: "binade x < e + 1" by (rule powi2_less_cancel)
  from 1 2 show ?thesis by simp
qed


lemma fl64_eqI:
  assumes "2 powi e \<le> \<bar>x\<bar>" "\<bar>x\<bar> < 2 powi (e + 1)" "\<bar>x\<bar> < 2 ^ 1024 - 2 ^ 970"
    and "u = max e (- 1022) - 52" and "round_half_even (x / 2 powi u) = n"
  shows "fl64 x = Finite (of_int n * 2 powi u)"
proof -
  have "0 < \<bar>x\<bar>" using assms(1) by (smt (verit) zero_less_power_int zero_less_numeral less_le_trans)
  then have "x \<noteq> 0" by simp
  moreover have "ulp x = 2 powi u" by (simp add: ulp_def binade_unique[OF assms(1,2)] assms(4))
  ultimately show ?thesis using assms(3,5) by (simp add: fl64_def)
qed


lemma round_half_even_near:
  assumes "of_int n - 1 / 2 < x" "x < of_int n + 1 / 2"
  shows "round_half_even x = n"
proof -
  have "n - 1 \<le> \<lfloor>x\<rfloor>" using assms(1) by (simp add: le_floor_iff)
  moreover have "\<lfloor>x\<rfloor> \<le> n" using assms(2) by (simp add: floor_le_iff)
  ultimately consider "\<lfloor>x\<rfloor> = n" | "\<lfloor>x\<rfloor> = n - 1" by linarith
  then show ?thesis
  proof cases
    case 1
    then show ?thesis using assms(2) by (simp add: round_half_even_def Let_def)
  next
    case 2
    then show ?thesis using assms(1) by (simp add: round_half_even_def Let_def)
  qed
qed

lemma round_half_even_le:
  assumes "x \<le> of_int m"
  shows "round_half_even x \<le> m"
proof (cases "x = of_int m")
  case True
  then show ?thesis by (simp add: round_half_even_def)
next
  case False
  with assms have lt: "x < of_int m" by simp
  then have "\<lfloor>x\<rfloor> < m" by (simp add: floor_less_iff)
  then have f: "\<lfloor>x\<rfloor> \<le> m - 1" by simp
  have "round_half_even x \<le> \<lfloor>x\<rfloor> + 1" by (simp add: round_half_even_def Let_def)
  with f show ?thesis by linarith
qed

lemma round_half_even_ge:
  assumes "of_int m \<le> x"
  shows "m \<le> round_half_even x"
proof -
  have "m \<le> \<lfloor>x\<rfloor>" using assms by (simp add: le_floor_iff)
  moreover have "\<lfloor>x\<rfloor> \<le> round_half_even x" by (simp add: round_half_even_def Let_def)
  ultimately show ?thesis by linarith
qed

lemma fl64_tenth: "fl64 (1/10) = Finite (3602879701896397 / 36028797018963968)"
  by (rule fl64_eqI[where e="-4" and u="-56" and n="7205759403792794", THEN trans])
     (simp_all add: round_half_even_near)


lemma round_half_even_of_int: "round_half_even (of_int m) = m"
  by (simp add: round_half_even_def)

lemma fl64_of_int:
  assumes "0 < k" "k < 2 ^ 53"
  shows "fl64 (of_int k) = Finite (of_int k)"
proof -
  let ?x = "of_int k :: rat"
  let ?e = "binade ?x"
  have xpos: "0 < ?x" using assms(1) by simp
  note b = binade_bounds[OF xpos]
  have "(2::rat) powi 0 \<le> ?x" using assms(1) by simp
  with b have "(2::rat) powi 0 < 2 powi (?e + 1)" by linarith
  then have e0: "0 \<le> ?e" using powi2_less_cancel[of 0 "?e + 1"] by simp
  have k53: "?x < 2 ^ 53"
  proof -
    from assms(2) have "?x < of_int (2 ^ 53)" by (simp only: of_int_less_iff)
    then show ?thesis by simp
  qed
  then have "?x < 2 powi 53" by simp
  with b have "(2::rat) powi ?e < 2 powi 53" by linarith
  then have e52: "?e \<le> 52" using powi2_less_cancel[of ?e 53] by simp
  have u: "ulp ?x = 2 powi (?e - 52)" using e0 xpos by (simp add: ulp_def max_def)
  have "2 powi (?e - 52) = 1 / (2::rat) ^ nat (52 - ?e)"
    using e52 by (simp add: power_int_def field_simps)
  then have u': "ulp ?x = 1 / 2 ^ nat (52 - ?e)" using u by simp
  have q: "?x / ulp ?x = of_int (k * 2 ^ nat (52 - ?e))" by (simp add: u')
  have r: "round_half_even (?x / ulp ?x) = k * 2 ^ nat (52 - ?e)"
    unfolding q by (rule round_half_even_of_int)
  have small: "\<bar>?x\<bar> < 2 ^ 1024 - 2 ^ 970"
  proof -
    have "\<bar>?x\<bar> < 2 ^ 53" using k53 xpos by simp
    also have "\<dots> < (2::rat) ^ 1024 - 2 ^ 970" by simp
    finally show ?thesis .
  qed
  have "fl64 ?x = Finite (of_int (round_half_even (?x / ulp ?x)) * ulp ?x)"
    using xpos small by (simp add: fl64_def)
  also have "of_int (round_half_even (?x / ulp ?x)) * ulp ?x = ?x"
    unfolding r by (simp add: u')
  finally show ?thesis .
qed

lemma py_int_max1: "(case py_int (Finite p) of Inl e \<Rightarrow> Inl e | Inr n \<Rightarrow> Inr (max 1 n)) = Inr (max 1 \<lfloor>p\<rfloor>)"
proof (cases "0 \<le> p")
  case True
  then show ?thesis by (simp add: trunc_def)
next
  case False
  then have "\<lceil>p\<rceil> \<le> 0" "\<lfloor>p\<rfloor> \<le> 0" by (simp_all add: ceiling_le_iff floor_le_iff)
  with False show ?thesis by (simp add: max_def trunc_def)
qed

lemma grid_dim_finite:
  assumes "tile_len \<noteq> 0"
    and "fl64 (of_int base_len / of_int tile_len) = Finite q" and "fl64 (q * f) = Finite p"
  shows "grid_dim base_len tile_len (Finite f) = Inr (max 1 \<lfloor>p\<rfloor>)"
  using assms py_int_max1[of p] by (simp add: grid_dim_def py_truediv_def)

lemma grid_dim_ge1: "grid_dim b t factor = Inr g \<Longrightarrow> 1 \<le> g"
  by (auto simp: grid_dim_def split: sum.splits)

lemma grid_dims_finite:
  assumes "0 < tile_w" "0 < tile_h"
    and "fl64 (of_int base_width / of_int tile_w) = Finite qw" "fl64 (qw * f) = Finite pw"
    and "fl64 (of_int base_height / of_int tile_h) = Finite qh" "fl64 (qh * f) = Finite ph"
  shows "grid_dims (base_width, base_height) (tile_w, tile_h) (Finite f)
           = Inr (max 1 \<lfloor>pw\<rfloor>, max 1 \<lfloor>ph\<rfloor>)"
  using assms by (simp add: grid_dims_def grid_dim_finite)

lemma grid_dim_cases:
  assumes "tile_len \<noteq> 0" and "fl64 (of_int base_len / of_int tile_len) = Finite q"
  shows "grid_dim base_len tile_len factor =
           (case float_mul (Finite q) factor of
              Finite p \<Rightarrow> Inr (max 1 \<lfloor>p\<rfloor>)
            | NaN \<Rightarrow> Inl NanToInteger
            | _ \<Rightarrow> Inl OverflowError)"
proof (cases "float_mul (Finite q) factor")
  case (Finite p)
  then show ?thesis using assms py_int_max1[of p] by (simp add: grid_dim_def py_truediv_def)
qed (use assms in \<open>simp_all add: grid_dim_def py_truediv_def\<close>)

lemma fl64_double_tenth:
  "fl64 (3602879701896397 / 36028797018963968) = Finite (3602879701896397 / 36028797018963968)"
  by (rule fl64_eqI[where e="-4" and u="-56" and n="7205759403792794", THEN trans])
     (simp_all add: round_half_even_near)

lemma fl64_mean_floor:
  fixes S :: int and n :: nat
  assumes S0: "0 \<le> S" and n0: "0 < n" and nb: "n \<le> 2 ^ 45" and Sb: "S \<le> 255 * int n"
  shows "\<exists>r. fl64 (of_int S / of_nat n) = Finite r \<and> 0 \<le> r \<and> \<lfloor>r\<rfloor> = S div int n"
proof (cases "S = 0")
  case True
  then show ?thesis by (simp add: fl64_def)
next
  case False
  with S0 have Spos: "0 < S" by simp
  define x :: rat where "x = of_int S / of_nat n"
  let ?k = "S div int n"
  have npos: "(0::rat) < of_nat n" using n0 by simp
  have xpos: "0 < x" using Spos npos by (simp add: x_def)
  have x255: "x \<le> 255"
  proof -
    have "(of_int S :: rat) \<le> of_int (255 * int n)" using Sb by (simp only: of_int_le_iff)
    then show ?thesis using npos by (simp add: x_def divide_le_eq)
  qed
  let ?e = "binade x"
  note b = binade_bounds[OF xpos]
  have "(2::rat) powi ?e < 2 powi 8" using b x255 by simp
  then have e7: "?e \<le> 7" using powi2_less_cancel[of ?e 8] by simp
  define j where "j = max ?e (- 1022) - 52"
  have j45: "j \<le> - 45" using e7 by (simp add: j_def)
  define N :: int where "N = 2 ^ nat (- j)"
  have Npos: "0 < N" by (simp add: N_def)
  have absx: "\<bar>x\<bar> = x" using xpos by (rule abs_of_pos)
  have "ulp x = 2 powi j" unfolding ulp_def absx j_def ..
  also have "\<dots> = inverse 2 ^ nat (- j)" using j45 by (simp add: power_int_def)
  also have "\<dots> = 1 / of_int N" by (simp add: N_def power_one_over inverse_eq_divide)
  finally have u: "ulp x = 1 / of_int N" .
  have Nbig: "(2::int) ^ 45 \<le> N"
    unfolding N_def using j45 by (intro power_increasing) auto
  have nN: "int n \<le> N"
  proof -
    have "int n \<le> int (2 ^ 45)" using nb by (simp only: of_nat_le_iff)
    with Nbig show ?thesis by simp
  qed
  have kle: "of_int ?k \<le> x" unfolding x_def
    by (metis floor_divide_of_int_eq of_int_floor_le of_int_of_nat_eq)
  have xup: "x \<le> of_int ?k + 1 - 1 / of_nat n"
  proof -
    have "S = ?k * int n + S mod int n" by simp
    moreover have "S mod int n \<le> int n - 1" using n0 by (simp add: zle_diff1_eq)
    ultimately have "S \<le> ?k * int n + int n - 1" by linarith
    then have "(of_int S :: rat) \<le> of_int (?k * int n + int n - 1)" by (simp only: of_int_le_iff)
    also have "(of_int (?k * int n + int n - 1) :: rat) = of_int ?k * of_nat n + of_nat n - 1"
      by simp
    also have "\<dots> = (of_int ?k + 1 - 1 / of_nat n) * of_nat n"
      using npos by (simp add: algebra_simps)
    finally show ?thesis unfolding x_def using npos by (simp only: pos_divide_le_eq)
  qed
  let ?r = "round_half_even (x / ulp x)"
  have xu: "x / ulp x = x * of_int N" by (simp add: u)
  have lo: "?k * N \<le> ?r"
  proof (rule round_half_even_ge)
    have "of_int ?k * of_int N \<le> x * (of_int N :: rat)"
      using kle Npos by (intro mult_right_mono) auto
    then show "of_int (?k * N) \<le> x / ulp x" by (simp add: xu)
  qed
  have hi: "?r \<le> (?k + 1) * N - 1"
  proof (rule round_half_even_le)
    have "1 \<le> (of_int N :: rat) / of_nat n"
    proof -
      have "(of_int (int n) :: rat) \<le> of_int N" using nN by (simp only: of_int_le_iff)
      then show ?thesis using npos by (simp add: le_divide_eq)
    qed
    moreover have "x * of_int N \<le> (of_int ?k + 1 - 1 / of_nat n) * (of_int N :: rat)"
      using xup Npos by (intro mult_right_mono) auto
    ultimately have "x * of_int N \<le> (of_int ?k + 1) * (of_int N :: rat) - 1"
      by (simp add: algebra_simps)
    then show "x / ulp x \<le> of_int ((?k + 1) * N - 1)" by (simp add: xu)
  qed
  have small: "\<bar>x\<bar> < 2 ^ 1024 - 2 ^ 970"
  proof -
    have "\<bar>x\<bar> \<le> 255" using x255 unfolding absx .
    also have "\<dots> < (2::rat) ^ 1024 - 2 ^ 970" by simp
    finally show ?thesis .
  qed
  have fl: "fl64 x = Finite (of_int ?r / of_int N)"
  proof -
    have "x \<noteq> 0" using xpos by simp
    moreover have "\<not> 2 ^ 1024 - 2 ^ 970 \<le> \<bar>x\<bar>" using small by simp
    ultimately have "fl64 x = Finite (of_int ?r * ulp x)" unfolding fl64_def by (simp only: if_False)
    then show ?thesis by (simp only: u) simp
  qed
  have NR: "(0::rat) < of_int N" using Npos by simp
  have k0: "0 \<le> ?k" using S0 n0 by (simp add: pos_imp_zdiv_nonneg_iff)
  have r1: "of_int ?k \<le> (of_int ?r :: rat) / of_int N"
  proof -
    have "(of_int (?k * N) :: rat) \<le> of_int ?r" using lo by (simp only: of_int_le_iff)
    then show ?thesis using NR by (simp add: le_divide_eq)
  qed
  have r2: "(of_int ?r :: rat) / of_int N < of_int ?k + 1"
  proof -
    have "(of_int ?r :: rat) \<le> of_int ((?k + 1) * N - 1)" using hi by (simp only: of_int_le_iff)
    then have "(of_int ?r :: rat) < (of_int ?k + 1) * of_int N" by simp
    then show ?thesis using NR by (simp add: divide_less_eq)
  qed
  have "\<lfloor>(of_int ?r :: rat) / of_int N\<rfloor> = ?k"
    using r1 r2 by (intro floor_unique) auto
  moreover have "0 \<le> (of_int ?r :: rat) / of_int N"
  proof -
    have "(0::rat) \<le> of_int ?k" using k0 by simp
    with r1 show ?thesis by linarith
  qed
  ultimately show ?thesis using fl unfolding x_def by simp
qed

section \<open>The grid formula\<close>

text \<open>
  C2. For a positive tile size, let the double-precision quotients \<open>base / tile\<close> be \<open>qw\<close> and
  \<open>qh\<close>. Whenever their double-precision products with the factor are finite, the grid
  dimensions are \<open>max 1 \<lfloor>qw * factor\<rfloor>\<close> and \<open>max 1 \<lfloor>qh * factor\<rfloor>\<close>, both at least 1; when a
  product is an infinity or a NaN, the computation raises and there is no grid. A 500 x 300
  base with 50 x 50 tiles gives a 10 x 6 grid at factor 1.0 and a 20 x 12 grid at factor 2.0;
  a 50 x 50 base at factor 0.1 (the double nearest to 1/10) gives a 1 x 1 grid.
\<close>

theorem grid_dims_formula:
  assumes "0 < tile_w" and "0 < tile_h"
    and "fl64 (of_int base_width / of_int tile_w) = Finite qw"
    and "fl64 (of_int base_height / of_int tile_h) = Finite qh"
  shows "(\<forall>pw ph. float_mul (Finite qw) factor = Finite pw
              \<and> float_mul (Finite qh) factor = Finite ph \<longrightarrow>
            grid_dims (base_width, base_height) (tile_w, tile_h) factor
              = Inr (max 1 \<lfloor>pw\<rfloor>, max 1 \<lfloor>ph\<rfloor>)
            \<and> 1 \<le> max 1 \<lfloor>pw\<rfloor> \<and> 1 \<le> max 1 \<lfloor>ph\<rfloor>)
       \<and> ((\<forall>pw. float_mul (Finite qw) factor \<noteq> Finite pw)
            \<or> (\<forall>ph. float_mul (Finite qh) factor \<noteq> Finite ph) \<longrightarrow>
            (\<exists>e. grid_dims (base_width, base_height) (tile_w, tile_h) factor = Inl e))
       \<and> grid_dims (500, 300) (50, 50) (Finite 1) = Inr (10, 6)
       \<and> grid_dims (500, 300) (50, 50) (Finite 2) = Inr (20, 12)
       \<and> grid_dims (50, 50) (50, 50) (fl64 (1 / 10)) = Inr (1, 1)"
proof -
  have w: "grid_dim base_width tile_w factor =
           (case float_mul (Finite qw) factor of
              Finite p \<Rightarrow> Inr (max 1 \<lfloor>p\<rfloor>) | NaN \<Rightarrow> Inl NanToInteger | _ \<Rightarrow> Inl OverflowError)"
    using assms(1,3) by (intro grid_dim_cases) auto
  have h: "grid_dim base_height tile_h factor =
           (case float_mul (Finite qh) factor of
              Finite p \<Rightarrow> Inr (max 1 \<lfloor>p\<rfloor>) | NaN \<Rightarrow> Inl NanToInteger | _ \<Rightarrow> Inl OverflowError)"
    using assms(2,4) by (intro grid_dim_cases) auto
  have finite: "grid_dims (base_width, base_height) (tile_w, tile_h) factor
              = Inr (max 1 \<lfloor>pw\<rfloor>, max 1 \<lfloor>ph\<rfloor>)"
    if "float_mul (Finite qw) factor = Finite pw" "float_mul (Finite qh) factor = Finite ph"
    for pw ph
    using that by (simp add: grid_dims_def w h)
  have raises: "\<exists>e. grid_dims (base_width, base_height) (tile_w, tile_h) factor = Inl e"
    if "(\<forall>pw. float_mul (Finite qw) factor \<noteq> Finite pw)
        \<or> (\<forall>ph. float_mul (Finite qh) factor \<noteq> Finite ph)"
    using that
    by (cases "float_mul (Finite qw) factor"; cases "float_mul (Finite qh) factor")
       (simp_all add: grid_dims_def w h)
  have ex1: "grid_dims (500, 300) (50, 50) (Finite 1) = Inr (10, 6)"
    using grid_dims_finite[of 50 50 500 10 1 10 300 6 6] fl64_of_int[of 10] fl64_of_int[of 6]
    by simp
  have ex2: "grid_dims (500, 300) (50, 50) (Finite 2) = Inr (20, 12)"
    using grid_dims_finite[of 50 50 500 10 2 20 300 6 12]
      fl64_of_int[of 10] fl64_of_int[of 6] fl64_of_int[of 20] fl64_of_int[of 12]
    by simp
  have ex3: "grid_dims (50, 50) (50, 50) (fl64 (1 / 10)) = Inr (1, 1)"
    using grid_dims_finite[of 50 50 50 1 "3602879701896397 / 36028797018963968"
        "3602879701896397 / 36028797018963968" 50 1 "3602879701896397 / 36028797018963968"]
      fl64_of_int[of 1] fl64_double_tenth
    by (simp add: fl64_tenth)
  from finite raises ex1 ex2 ex3 show ?thesis by simp
qed

theorem grid_dims_formula_witness:
  "(0::int) < 50 \<and> fl64 (of_int 800 / of_int 50) = Finite 16
   \<and> fl64 (of_int 600 / of_int 50) = Finite 12
   \<and> float_mul (Finite 16) (Finite (3 / 2)) = Finite 24
   \<and> float_mul (Finite 12) (Finite (3 / 2)) = Finite 18
   \<and> grid_dims (800, 600) (50, 50) (Finite (3 / 2)) = Inr (24, 18)"
proof -
  have h: "(0::int) < 50" by simp
  have q1: "fl64 (of_int 800 / of_int 50) = Finite 16" using fl64_of_int[of 16] by simp
  have q2: "fl64 (of_int 600 / of_int 50) = Finite 12" using fl64_of_int[of 12] by simp
  have p1: "float_mul (Finite 16) (Finite (3 / 2)) = Finite 24" using fl64_of_int[of 24] by simp
  have p2: "float_mul (Finite 12) (Finite (3 / 2)) = Finite 18" using fl64_of_int[of 18] by simp
  note t = grid_dims_formula[OF h h q1 q2, of "Finite (3 / 2)", THEN conjunct1, rule_format,
      of 24 18]
  from t p1 p2 have "grid_dims (800, 600) (50, 50) (Finite (3 / 2)) = Inr (24, 18)" by simp
  with h q1 q2 p1 p2 show ?thesis by simp
qed

text \<open>
  With a factor as large as \<open>2 ^ 1023\<close> the product overflows to infinity and \<^verbatim>\<open>int\<close> raises
  \<^verbatim>\<open>OverflowError\<close>: no grid is computed.
\<close>

theorem grid_dims_overflow_counterexample:
  "grid_dims (500, 300) (50, 50) (Finite (2 ^ 1023)) = Inl OverflowError"
  using fl64_of_int[of 10] by (simp add: grid_dims_def grid_dim_def py_truediv_def fl64_def)

section \<open>The average colour\<close>

lemma sum_list_le_255:
  fixes vs :: "int list"
  shows "\<forall>v\<in>set vs. v \<le> 255 \<Longrightarrow> sum_list vs \<le> 255 * int (length vs)"
  by (induction vs) auto

lemma channel_average:
  assumes "vs \<noteq> []" "length vs \<le> 2 ^ 45" "\<forall>v\<in>set vs. 0 \<le> v \<and> v \<le> 255"
  shows "astype_int (np_mean vs) = trunc (arithmetic_mean vs)"
proof -
  let ?S = "sum_list vs" and ?n = "length vs"
  have n0: "0 < ?n" using assms(1) by simp
  have S0: "0 \<le> ?S" using assms(3) by (intro sum_list_nonneg) auto
  have Sb: "?S \<le> 255 * int ?n" using assms(3) by (intro sum_list_le_255) auto
  from fl64_mean_floor[OF S0 n0 assms(2) Sb] obtain r where
    r: "fl64 (of_int ?S / of_nat ?n) = Finite r" "0 \<le> r" "\<lfloor>r\<rfloor> = ?S div int ?n" by blast
  have m0: "0 \<le> arithmetic_mean vs" using S0 by (simp add: arithmetic_mean_def)
  have "\<lfloor>arithmetic_mean vs\<rfloor> = ?S div int ?n"
    unfolding arithmetic_mean_def by (metis floor_divide_of_int_eq of_int_of_nat_eq)
  then have "trunc (arithmetic_mean vs) = ?S div int ?n" using m0 by (simp add: trunc_def)
  moreover have "astype_int (np_mean vs) = ?S div int ?n"
    using assms(1) r by (simp add: np_mean_def astype_int_def trunc_def)
  ultimately show ?thesis by simp
qed

lemma channel_range:
  "0 \<le> red p \<and> red p \<le> 255" "0 \<le> green p \<and> green p \<le> 255" "0 \<le> blue p \<and> blue p \<le> 255"
proof -
  have w: "0 \<le> uint w \<and> uint w \<le> 255" for w :: "8 word"
    using uint_lt2p[of w] by simp
  obtain r g b where "p = (r, g, b)" by (cases p)
  then show "0 \<le> red p \<and> red p \<le> 255" "0 \<le> green p \<and> green p \<le> 255"
    "0 \<le> blue p \<and> blue p \<le> 255"
    using w[of r] w[of g] w[of b] by (simp_all add: red_def green_def blue_def)
qed

lemma get_average_rgb_channels:
  assumes "pixels img \<noteq> []" "length (pixels img) \<le> 2 ^ 45"
  shows "get_average_rgb img =
           (trunc (arithmetic_mean (map red (pixels img))),
            trunc (arithmetic_mean (map green (pixels img))),
            trunc (arithmetic_mean (map blue (pixels img))))"
proof -
  have "astype_int (np_mean (map f (pixels img))) = trunc (arithmetic_mean (map f (pixels img)))"
    if "\<forall>p. 0 \<le> f p \<and> f p \<le> 255" for f :: "pixel \<Rightarrow> int"
    using assms that by (intro channel_average) auto
  from this[of red] this[of green] this[of blue] show ?thesis
    using channel_range by (simp add: get_average_rgb_def Let_def)
qed

lemma arithmetic_mean_solid:
  assumes "ps \<noteq> []" "set ps = {c}"
  shows "arithmetic_mean (map f ps) = of_int (f c)"
proof -
  have "ps = replicate (length ps) c" using assms(2) by (simp add: replicate_length_same)
  then have "map f ps = replicate (length ps) (f c)" by (metis map_replicate)
  then have "sum_list (map f ps) = int (length ps) * f c" by (simp add: sum_list_replicate)
  then show ?thesis using assms(1) by (simp add: arithmetic_mean_def)
qed

lemma trunc_of_int: "trunc (of_int k) = k"
  by (simp add: trunc_def)

lemma trunc_arithmetic_mean:
  assumes "0 \<le> sum_list vs"
  shows "trunc (arithmetic_mean vs) = sum_list vs div int (length vs)"
proof -
  have "0 \<le> arithmetic_mean vs" using assms by (simp add: arithmetic_mean_def)
  moreover have "\<lfloor>arithmetic_mean vs\<rfloor> = sum_list vs div int (length vs)"
    unfolding arithmetic_mean_def by (metis floor_divide_of_int_eq of_int_of_nat_eq)
  ultimately show ?thesis by (simp add: trunc_def)
qed

text \<open>
  C6. For a non-empty RGB image (of at most \<open>2 ^ 45\<close> pixels, far beyond what can be held in
  memory), \<^verbatim>\<open>get_average_rgb\<close> returns, per channel, the arithmetic mean over all pixels
  truncated to an integer; the rounding of the float division never changes the truncated
  value. For an image of a single colour it returns exactly that colour.
\<close>

theorem get_average_rgb_mean:
  assumes "pixels img \<noteq> []" "length (pixels img) \<le> 2 ^ 45"
  shows "get_average_rgb img =
           (trunc (arithmetic_mean (map red (pixels img))),
            trunc (arithmetic_mean (map green (pixels img))),
            trunc (arithmetic_mean (map blue (pixels img))))
       \<and> (\<forall>c. set (pixels img) = {c} \<longrightarrow> get_average_rgb img = (red c, green c, blue c))"
  using get_average_rgb_channels[OF assms] assms(1)
  by (simp add: arithmetic_mean_solid trunc_of_int)

theorem get_average_rgb_mean_witness:
  "pixels \<lparr>width = 2, height = 1, pixels = [(10, 20, 30), (11, 21, 33)]\<rparr> \<noteq> []
   \<and> length (pixels \<lparr>width = 2, height = 1, pixels = [(10, 20, 30), (11, 21, 33)]\<rparr>) \<le> 2 ^ 45
   \<and> get_average_rgb \<lparr>width = 2, height = 1, pixels = [(10, 20, 30), (11, 21, 33)]\<rparr>
       = (10, 20, 31)"
  using get_average_rgb_mean
    [of "\<lparr>width = 2, height = 1, pixels = [(10, 20, 30), (11, 21, 33)]\<rparr>"]
  by (simp add: trunc_arithmetic_mean red_def green_def blue_def)

section \<open>NearestMatch\<close>

lemma select_all_nearest_match:
  "select_all (nearest_match kd tiles) st qs = (map (\<lambda>q. find_best_match_tile q kd tiles) qs, st)"
  by (induction qs arbitrary: st) (simp_all add: nearest_match_def)

text \<open>
  C8. NearestMatch is pure with respect to the render state: whatever state the render is in
  and whatever other selections come in between, two selections with the same query colour
  return the same result, the state is left as it was, and each result is that of the single
  call \<^verbatim>\<open>find_best_match_tile\<close> on its query.
\<close>

theorem nearest_match_pure:
  "snd (select_all (nearest_match kd tiles) st qs) = st
   \<and> length (fst (select_all (nearest_match kd tiles) st qs)) = length qs
   \<and> (\<forall>i < length qs. \<forall>j < length qs. qs ! i = qs ! j \<longrightarrow>
         fst (select_all (nearest_match kd tiles) st qs) ! i
           = fst (select_all (nearest_match kd tiles) st qs) ! j)
   \<and> (\<forall>i < length qs.
         fst (select_all (nearest_match kd tiles) st qs) ! i
           = find_best_match_tile (qs ! i) kd tiles)"
  by (simp add: select_all_nearest_match)

theorem nearest_match_pure_witness:
  "fst (select_all (nearest_match (answering 1) [tile_a, tile_b]) ()
          [(0, 0, 0), (5, 5, 5), (0, 0, 0)]) ! 0
   = fst (select_all (nearest_match (answering 1) [tile_a, tile_b]) ()
          [(0, 0, 0), (5, 5, 5), (0, 0, 0)]) ! 2"
proof -
  let ?qs = "[(0, 0, 0), (5, 5, 5), (0, 0, 0)] :: color list"
  from nearest_match_pure[of "answering 1" "[tile_a, tile_b]" "()" ?qs]
  have "\<forall>i < length ?qs. \<forall>j < length ?qs. ?qs ! i = ?qs ! j \<longrightarrow>
         fst (select_all (nearest_match (answering 1) [tile_a, tile_b]) () ?qs) ! i
           = fst (select_all (nearest_match (answering 1) [tile_a, tile_b]) () ?qs) ! j"
    by blast
  from this[rule_format, of 0 2] show ?thesis by simp
qed


lemma find_first_index:
  assumes "i < length xs" "P (xs ! i)" "\<forall>j < i. \<not> P (xs ! j)"
  shows "find P xs = Some (xs ! i)"
  using assms
proof (induction xs arbitrary: i)
  case Nil
  then show ?case by simp
next
  case (Cons x xs)
  show ?case
  proof (cases i)
    case 0
    with Cons.prems show ?thesis by simp
  next
    case (Suc k)
    with Cons.prems have "\<not> P x" by auto
    moreover have "find P xs = Some (xs ! k)"
    proof (rule Cons.IH)
      show "k < length xs" using Cons.prems Suc by simp
      show "P (xs ! k)" using Cons.prems Suc by simp
      show "\<forall>j<k. \<not> P (xs ! j)" using Cons.prems(3) Suc by auto
    qed
    ultimately show ?thesis using Suc by simp
  qed
qed

lemma first_tile_of_color_least:
  assumes "i < length tiles" "length avg_colors = length tiles"
    and "\<forall>j < i. avg_colors ! j \<noteq> avg_colors ! i"
  shows "first_tile_of_color (avg_colors ! i) tiles avg_colors = Some (tiles ! i)"
proof -
  let ?P = "\<lambda>(t, a). a = avg_colors ! i"
  have "find ?P (zip tiles avg_colors) = Some (zip tiles avg_colors ! i)"
    using assms by (intro find_first_index) auto
  then show ?thesis using assms by (simp add: first_tile_of_color_def)
qed






section \<open>CyclingMatch\<close>

lemma cycle_step:
  assumes "kd q = Some u" "u < length ucl" "ucl ! u = c" "map_of m c = Some g"
    and "indices g \<noteq> []" "next_idx g < length (indices g)"
    and "indices g ! next_idx g < length tiles"
  shows "find_best_match_tile_cycle q kd ucl tiles m =
           (Inr (tiles ! (indices g ! next_idx g)),
            AList.update c (g\<lparr>next_idx := (next_idx g + 1) mod length (indices g)\<rparr>) m)"
  using assms by (simp add: find_best_match_tile_cycle_def list_get_def)

lemma cycle_steps:
  assumes "map_of m c = Some g" "indices g = idxs" "idxs \<noteq> []" "next_idx g = cur"
    and "cur < length idxs" "\<forall>i \<in> set idxs. i < length tiles"
    and "\<forall>q \<in> set qs. \<exists>u. kd q = Some u \<and> u < length ucl \<and> ucl ! u = c"
  shows "select_all (cycling_match kd ucl tiles) m qs =
           (map (\<lambda>j. Inr (tiles ! (idxs ! ((cur + j) mod length idxs)))) [0..<length qs],
            AList.update c (g\<lparr>next_idx := (cur + length qs) mod length idxs\<rparr>) m)"
  using assms
proof (induction qs arbitrary: m g cur)
  case Nil
  have "g\<lparr>next_idx := cur\<rparr> = g" using Nil.prems(4) by simp
  then show ?case using Nil.prems by (simp add: AList.update_triv)
next
  case (Cons q qs)
  let ?k = "length idxs"
  let ?g1 = "g\<lparr>next_idx := Suc cur mod ?k\<rparr>"
  let ?m1 = "AList.update c ?g1 m"
  from Cons.prems(7) obtain u where u: "kd q = Some u" "u < length ucl" "ucl ! u = c" by auto
  have inr: "idxs ! cur < length tiles" using Cons.prems(5,6) by simp
  have step: "cycling_match kd ucl tiles m q = (Inr (tiles ! (idxs ! cur)), ?m1)"
    unfolding cycling_match_def
    using cycle_step[of kd q u ucl c m g tiles] u Cons.prems(1,2,3,4,5) inr by simp
  have kpos: "0 < ?k" using Cons.prems(3) by simp
  have IH: "select_all (cycling_match kd ucl tiles) ?m1 qs =
           (map (\<lambda>j. Inr (tiles ! (idxs ! ((Suc cur mod ?k + j) mod ?k)))) [0..<length qs],
            AList.update c (?g1\<lparr>next_idx := (Suc cur mod ?k + length qs) mod ?k\<rparr>) ?m1)"
  proof (rule Cons.IH)
    show "map_of ?m1 c = Some ?g1" by (simp add: AList.update_conv')
    show "indices ?g1 = idxs" using Cons.prems(2) by simp
    show "idxs \<noteq> []" by fact
    show "next_idx ?g1 = Suc cur mod ?k" by simp
    show "Suc cur mod ?k < ?k" using kpos by simp
    show "\<forall>i \<in> set idxs. i < length tiles" by fact
    show "\<forall>q \<in> set qs. \<exists>u. kd q = Some u \<and> u < length ucl \<and> ucl ! u = c"
      using Cons.prems(7) by simp
  qed
  have shift: "(Suc cur mod ?k + j) mod ?k = (cur + Suc j) mod ?k" for j
    by (simp add: mod_add_left_eq)
  have results: "map (\<lambda>j. Inr (tiles ! (idxs ! ((cur + j) mod ?k)))) [0..<length (q # qs)]
      = Inr (tiles ! (idxs ! cur))
        # map (\<lambda>j. Inr (tiles ! (idxs ! ((Suc cur mod ?k + j) mod ?k)))) [0..<length qs]"
  proof -
    have "[0..<length (q # qs)] = 0 # map Suc [0..<length qs]"
      by (simp add: upt_conv_Cons map_Suc_upt del: upt_Suc)
    then show ?thesis using Cons.prems(5) by (simp add: shift comp_def)
  qed
  have final: "AList.update c (?g1\<lparr>next_idx := (Suc cur mod ?k + length qs) mod ?k\<rparr>) ?m1
      = AList.update c (g\<lparr>next_idx := (cur + length (q # qs)) mod ?k\<rparr>) m"
    by (simp add: shift)
  have "select_all (cycling_match kd ucl tiles) m (q # qs) =
          (Inr (tiles ! (idxs ! cur)) # fst (select_all (cycling_match kd ucl tiles) ?m1 qs),
           snd (select_all (cycling_match kd ucl tiles) ?m1 qs))"
    by (simp add: step split: prod.splits)
  also have "\<dots> = (map (\<lambda>j. Inr (tiles ! (idxs ! ((cur + j) mod ?k)))) [0..<length (q # qs)],
            AList.update c (g\<lparr>next_idx := (cur + length (q # qs)) mod ?k\<rparr>) m)"
    unfolding IH results final by simp
  finally show ?case .
qed

lemma mset_rotate_eq: "mset (rotate n xs) = mset xs"
proof -
  let ?k = "n mod length xs"
  have "mset (rotate n xs) = mset (drop ?k xs) + mset (take ?k xs)"
    by (simp add: rotate_drop_take)
  also have "\<dots> = mset (take ?k xs) + mset (drop ?k xs)"
    by (rule union_commute)
  also have "\<dots> = mset (take ?k xs @ drop ?k xs)"
    by (simp only: mset_append)
  also have "\<dots> = mset xs"
    by (simp only: append_take_drop_id)
  finally show ?thesis .
qed

lemma rotate_as_map:
  assumes "xs \<noteq> []"
  shows "map (\<lambda>j. xs ! ((n + j) mod length xs)) [0..<length xs] = rotate n xs"
  by (rule nth_equalityI) (simp_all add: nth_rotate)

text \<open>
  C3. CyclingMatch: when \<open>k\<close> consecutive selections all resolve to a colour group whose list
  of tile positions has length \<open>k\<close>, they return the tiles at the positions of the group's list
  rotated by the cursor, every position of the list exactly once, and the cursor is back where
  it was; each of these selections advances the cursor by one modulo \<open>k\<close>.
\<close>

theorem cycling_match_rotation:
  assumes "map_of m c = Some g" and "indices g \<noteq> []" and "next_idx g < length (indices g)"
    and "\<forall>i \<in> set (indices g). i < length tiles"
    and "length qs = length (indices g)"
    and "\<forall>q \<in> set qs. \<exists>u. kd q = Some u \<and> u < length ucl \<and> ucl ! u = c"
  shows "select_all (cycling_match kd ucl tiles) m qs =
           (map (\<lambda>i. Inr (tiles ! i)) (rotate (next_idx g) (indices g)), m)
       \<and> mset (rotate (next_idx g) (indices g)) = mset (indices g)
       \<and> (\<forall>q \<in> set qs. cycling_match kd ucl tiles m q =
            (Inr (tiles ! (indices g ! next_idx g)),
             AList.update c (g\<lparr>next_idx := (next_idx g + 1) mod length (indices g)\<rparr>) m))"
proof -
  let ?idxs = "indices g" and ?cur = "next_idx g"
  have "select_all (cycling_match kd ucl tiles) m qs =
           (map (\<lambda>j. Inr (tiles ! (?idxs ! ((?cur + j) mod length ?idxs)))) [0..<length qs],
            AList.update c (g\<lparr>next_idx := (?cur + length qs) mod length ?idxs\<rparr>) m)"
    using assms by (intro cycle_steps) auto
  moreover have "map (\<lambda>j. Inr (tiles ! (?idxs ! ((?cur + j) mod length ?idxs)))) [0..<length qs]
      = map (\<lambda>i. Inr (tiles ! i)) (rotate ?cur ?idxs)"
    unfolding rotate_as_map[OF assms(2), of ?cur, symmetric] assms(5) by (simp add: comp_def)
  moreover have "g\<lparr>next_idx := (?cur + length qs) mod length ?idxs\<rparr> = g"
    using assms(3,5) by simp
  ultimately have 1: "select_all (cycling_match kd ucl tiles) m qs =
           (map (\<lambda>i. Inr (tiles ! i)) (rotate ?cur ?idxs), m)"
    using assms(1) by (simp add: AList.update_triv)
  have 3: "cycling_match kd ucl tiles m q =
            (Inr (tiles ! (?idxs ! ?cur)),
             AList.update c (g\<lparr>next_idx := (?cur + 1) mod length ?idxs\<rparr>) m)"
    if "q \<in> set qs" for q
  proof -
    from assms(6) that obtain u where u: "kd q = Some u" "u < length ucl" "ucl ! u = c" by auto
    have "?idxs ! ?cur < length tiles" using assms(3,4) by simp
    with cycle_step[of kd q u ucl c m g tiles] u assms(1,2,3) show ?thesis
      by (simp add: cycling_match_def)
  qed
  from 1 3 show ?thesis by (simp add: mset_rotate_eq)
qed

theorem cycling_match_rotation_witness:
  "map_of two_groups (1, 1, 1) = Some \<lparr>indices = [0, 2], next_idx = 1\<rparr>
   \<and> select_all (cycling_match (answering 0) [(1, 1, 1), (9, 9, 9)] [tile_a, tile_c, tile_b])
        two_groups [(0, 0, 0), (3, 3, 3)]
      = ([Inr tile_b, Inr tile_a], two_groups)"
proof -
  let ?g = "\<lparr>indices = [0, 2], next_idx = 1\<rparr>"
  let ?ucl = "[(1, 1, 1), (9, 9, 9)] :: color list"
  let ?qs = "[(0, 0, 0), (3, 3, 3)] :: color list"
  let ?tiles = "[tile_a, tile_c, tile_b]"
  have h1: "map_of two_groups (1, 1, 1) = Some ?g" by (simp add: two_groups_def)
  have h2: "indices ?g \<noteq> []" by simp
  have h3: "next_idx ?g < length (indices ?g)" by simp
  have h4: "\<forall>i \<in> set (indices ?g). i < length ?tiles" by simp
  have h5: "length ?qs = length (indices ?g)" by simp
  have h6: "\<forall>q \<in> set ?qs. \<exists>u. answering 0 q = Some u \<and> u < length ?ucl \<and> ?ucl ! u = (1, 1, 1)"
    by (simp add: answering_def)
  have r: "map (\<lambda>i. Inr (?tiles ! i)) (rotate (next_idx ?g) (indices ?g))
             = [Inr tile_b, Inr tile_a :: error + image]"
    by (simp add: rotate_def)
  note t = cycling_match_rotation[of two_groups "(1, 1, 1)" ?g ?tiles ?qs "answering 0" ?ucl,
      OF h1 h2 h3 h4 h5 h6]
  from t[THEN conjunct1] have "select_all (cycling_match (answering 0) ?ucl ?tiles) two_groups ?qs
      = ([Inr tile_b, Inr tile_a], two_groups)"
    unfolding r .
  with h1 show ?thesis by blast
qed


section \<open>The fallback of the cycling selector\<close>

lemma cycle_fallback:
  assumes "kd target = None" and "tiles \<noteq> []" and "valid_groups tiles m"
  shows "\<exists>t \<in> set tiles. find_best_match_tile_cycle target kd ucl tiles m = (Inr t, m)
          \<and> ((\<exists>key rest g. ucl = key # rest \<and> map_of m key = Some g \<and> indices g \<noteq> []
                \<and> t = tiles ! (indices g ! 0))
              \<or> t = tiles ! 0)"
proof (cases "\<exists>key rest g. ucl = key # rest \<and> map_of m key = Some g \<and> indices g \<noteq> []")
  case True
  then obtain key rest g where k: "ucl = key # rest" "map_of m key = Some g" "indices g \<noteq> []"
    by blast
  from k(2) have "(key, g) \<in> set m" by (rule map_of_SomeD)
  with assms(3) k(3) have "indices g ! 0 < length tiles"
    by (auto simp: valid_groups_def)
  then show ?thesis using assms(1,2) k
    by (auto simp: find_best_match_tile_cycle_def list_get_def)
next
  case False
  then have "find_best_match_tile_cycle target kd ucl tiles m = (Inr (tiles ! 0), m)"
    using assms(1,2)
    by (auto simp: find_best_match_tile_cycle_def list_get_def split: list.splits option.splits)
  then show ?thesis using assms(2) by auto
qed

text \<open>
  C9. When the query of the index raises, the cycling selector returns the first tile of the
  first colour group, or else the very first loaded tile, and the colour map with all its
  cursors is returned unchanged.
\<close>

theorem fallback_keeps_cursors:
  assumes "kd target = None" and "tiles \<noteq> []" and "valid_groups tiles m"
  shows "\<exists>t \<in> set tiles. find_best_match_tile_cycle target kd ucl tiles m = (Inr t, m)
          \<and> ((\<exists>key rest g. ucl = key # rest \<and> map_of m key = Some g \<and> indices g \<noteq> []
                \<and> t = tiles ! (indices g ! 0))
              \<or> t = tiles ! 0)"
  using assms by (rule cycle_fallback)

theorem fallback_keeps_cursors_witness:
  "failing_tree (0, 0, 0) = None \<and> [tile_a, tile_c, tile_b] \<noteq> []
   \<and> valid_groups [tile_a, tile_c, tile_b] two_groups
   \<and> find_best_match_tile_cycle (0, 0, 0) failing_tree [(1, 1, 1), (9, 9, 9)]
        [tile_a, tile_c, tile_b] two_groups = (Inr tile_a, two_groups)"
proof -
  have h1: "failing_tree (0, 0, 0) = None" by (simp add: failing_tree_def)
  have h2: "[tile_a, tile_c, tile_b] \<noteq> []" by simp
  have h3: "valid_groups [tile_a, tile_c, tile_b] two_groups"
    by (simp add: valid_groups_def two_groups_def)
  from fallback_keeps_cursors[of failing_tree "(0, 0, 0)" "[tile_a, tile_c, tile_b]" two_groups
      "[(1, 1, 1), (9, 9, 9)]"] h1 h2 h3
  obtain t where "find_best_match_tile_cycle (0, 0, 0) failing_tree [(1, 1, 1), (9, 9, 9)]
        [tile_a, tile_c, tile_b] two_groups = (Inr t, two_groups)"
    and "(\<exists>key rest g. [(1, 1, 1), (9, 9, 9)] = key # rest \<and> map_of two_groups key = Some g
          \<and> indices g \<noteq> [] \<and> t = [tile_a, tile_c, tile_b] ! (indices g ! 0))
         \<or> t = [tile_a, tile_c, tile_b] ! 0"
    by blast
  then show ?thesis using h1 h3 by (auto simp: two_groups_def)
qed

section \<open>Loading\<close>

lemma load_loop_filter:
  "load_loop rs ts z entries (tiles, cols, warnings) =
     (tiles @ map (\<lambda>e. fst (the (load_one rs ts e))) (filter (survives rs ts z) entries),
      cols @ map (\<lambda>e. snd (the (load_one rs ts e))) (filter (survives rs ts z) entries),
      warnings @ map filename (filter (fails rs ts z) entries))"
proof (induction entries arbitrary: tiles cols warnings)
  case Nil
  then show ?case by simp
next
  case (Cons e entries)
  show ?case
    by (cases "load_one rs ts e") (auto simp: Cons.IH survives_def fails_def)
qed

lemma load_one_Some:
  assumes "load_one rs ts e = Some (img, c)"
  shows "c = get_average_rgb img \<and> width img = fst ts \<and> height img = snd ts
       \<and> length (pixels img) = fst ts * snd ts \<and> 0 < fst ts \<and> 0 < snd ts"
  using assms
  by (cases ts) (auto simp: load_one_def resize_def split: option.splits if_splits)

lemma load_tile_images_valid:
  assumes "source \<noteq> NotASource"
  shows "load_tile_images rs source ts =
           check_loaded (load_loop rs ts (is_zip source) (entries_of source) ([], [], []))"
  using assms by (cases source) (simp_all add: load_tile_images_def is_zip_def entries_of_def)

lemma filter_survives_skip:
  assumes "\<not> survives rs ts z bad"
  shows "filter (survives rs ts z) (xs @ bad # ys) = filter (survives rs ts z) (xs @ ys)"
  using assms by simp


lemma sample_names:
  "wanted False ''a.png''" "wanted False ''broken.JPG''" "\<not> wanted False ''notes.txt''"
  "wanted False ''c.gif''"
  by code_simp+

lemma get_average_rgb_single:
  "get_average_rgb \<lparr>width = w, height = h, pixels = [p]\<rparr> = (red p, green p, blue p)"
  using get_average_rgb_channels[of "\<lparr>width = w, height = h, pixels = [p]\<rparr>"]
  by (simp add: arithmetic_mean_def trunc_of_int)

lemma sample_loaded:
  "load_tile_images first_pixel sample_directory (1, 1) =
     (Inr ([\<lparr>width = 1, height = 1, pixels = [(0, 0, 0)]\<rparr>,
            \<lparr>width = 1, height = 1, pixels = [(9, 9, 9)]\<rparr>],
           [(0, 0, 0), (9, 9, 9)]),
      [''broken.JPG''])"
  by (simp add: load_tile_images_def sample_directory_def check_loaded_def sample_names
      load_one_def resize_def first_pixel_def tile_a_def tile_c_def get_average_rgb_single
      red_def green_def blue_def)



section \<open>Grouping\<close>

lemma filter_upt_snoc:
  "filter (\<lambda>i. (ds @ [c]) ! i = k) [0..<length (ds @ [c])] =
     filter (\<lambda>i. ds ! i = k) [0..<length ds] @ (if c = k then [length ds] else [])"
proof -
  have "filter (\<lambda>i. (ds @ [c]) ! i = k) [0..<length ds] = filter (\<lambda>i. ds ! i = k) [0..<length ds]"
    by (rule filter_cong) (auto simp: nth_append)
  then show ?thesis by simp
qed

lemma filter_upt_absent:
  assumes "k \<notin> set ds"
  shows "filter (\<lambda>i. ds ! i = k) [0..<length ds] = []"
  using assms by (auto simp: filter_empty_conv)

lemma add_to_group_grouped:
  assumes "grouped ds m"
  shows "grouped (ds @ [c]) (add_to_group m (length ds) c)"
proof -
  let ?old = "filter (\<lambda>i. ds ! i = c) [0..<length ds]"
  let ?new = "\<lparr>indices = ?old @ [length ds], next_idx = 0\<rparr>"
  from assms have dist: "distinct (map fst m)"
    and look: "\<And>k. map_of m k =
            (if k \<in> set ds
             then Some \<lparr>indices = filter (\<lambda>i. ds ! i = k) [0..<length ds], next_idx = 0\<rparr>
             else None)"
    unfolding grouped_def by blast+
  have eq: "add_to_group m (length ds) c = AList.update c ?new
              (if c \<in> set ds then m else AList.update c \<lparr>indices = [], next_idx = 0\<rparr> m)"
  proof (cases "c \<in> set ds")
    case True
    then show ?thesis by (simp add: add_to_group_def look)
  next
    case False
    then show ?thesis
      by (simp add: add_to_group_def look AList.update_conv' filter_upt_absent)
  qed
  have mo: "map_of (add_to_group m (length ds) c) = (map_of m)(c \<mapsto> ?new)"
    unfolding eq by (simp add: AList.update_conv')
  have d: "distinct (map fst (add_to_group m (length ds) c))"
    unfolding eq using dist by (simp add: AList.distinct_update)
  have "map_of (add_to_group m (length ds) c) k =
            (if k \<in> set (ds @ [c])
             then Some \<lparr>indices = filter (\<lambda>i. (ds @ [c]) ! i = k) [0..<length (ds @ [c])],
                        next_idx = 0\<rparr>
             else None)" for k
    unfolding mo filter_upt_snoc by (simp add: look)
  with d show ?thesis unfolding grouped_def by blast
qed

lemma group_loop_grouped:
  assumes "grouped ds m"
  shows "grouped (ds @ cs) (group_loop m (length ds) cs)"
  using assms
proof (induction cs arbitrary: ds m)
  case Nil
  then show ?case by simp
next
  case (Cons c cs)
  from add_to_group_grouped[OF Cons.prems, of c]
  have "grouped ((ds @ [c]) @ cs) (group_loop (add_to_group m (length ds) c) (length (ds @ [c])) cs)"
    by (rule Cons.IH)
  then show ?case by simp
qed

lemma group_tiles_grouped: "grouped cols (group_tiles cols)"
  using group_loop_grouped[of "[]" "[]" cols] by (simp add: group_tiles_def grouped_def)

lemma grouped_entry:
  assumes "grouped cols m" "(c, g) \<in> set m"
  shows "indices g = filter (\<lambda>i. cols ! i = c) [0..<length cols] \<and> next_idx g = 0 \<and> c \<in> set cols"
proof -
  from assms(1) have dist: "distinct (map fst m)"
    and look: "map_of m c =
            (if c \<in> set cols
             then Some \<lparr>indices = filter (\<lambda>i. cols ! i = c) [0..<length cols], next_idx = 0\<rparr>
             else None)"
    unfolding grouped_def by blast+
  have "map_of m c = Some g" using map_of_is_SomeI[OF dist assms(2)] .
  with look show ?thesis by (cases "c \<in> set cols") auto
qed

lemma grouped_valid_groups:
  assumes "grouped cols m" "length cols = length tiles"
  shows "valid_groups tiles m"
  unfolding valid_groups_def
proof (clarify, intro conjI ballI impI)
  fix c g i assume "(c, g) \<in> set m" "i \<in> set (indices g)"
  with grouped_entry[OF assms(1)] assms(2) show "i < length tiles" by auto
next
  fix c g assume "(c, g) \<in> set m" "indices g \<noteq> []"
  with grouped_entry[OF assms(1)] show "next_idx g < length (indices g)" by auto
qed

lemma survives_loaded:
  assumes "survives rs ts z e"
  obtains img where "load_one rs ts e = Some (img, get_average_rgb img)"
    "width img = fst ts" "height img = snd ts" "length (pixels img) = fst ts * snd ts"
proof -
  from assms obtain img c where l: "load_one rs ts e = Some (img, c)"
    by (auto simp: survives_def)
  from load_one_Some[OF l] l that show ?thesis by blast
qed

lemma load_tile_images_Inr:
  assumes "fst (load_tile_images rs source ts) = Inr (tiles, cols)"
  shows "\<exists>S. S \<noteq> [] \<and> (\<forall>e \<in> set S. survives rs ts (is_zip source) e)
           \<and> tiles = map (\<lambda>e. fst (the (load_one rs ts e))) S
           \<and> cols = map (\<lambda>e. snd (the (load_one rs ts e))) S"
proof -
  have valid: "source \<noteq> NotASource"
    using assms by (auto simp: load_tile_images_def)
  let ?S = "filter (survives rs ts (is_zip source)) (entries_of source)"
  from assms have "?S \<noteq> [] \<and> tiles = map (\<lambda>e. fst (the (load_one rs ts e))) ?S
           \<and> cols = map (\<lambda>e. snd (the (load_one rs ts e))) ?S"
    by (simp add: load_tile_images_valid[OF valid] load_loop_filter check_loaded_def
        split: if_splits)
  moreover have "\<forall>e \<in> set ?S. survives rs ts (is_zip source) e" by simp
  ultimately show ?thesis by blast
qed

lemma grouped_partition:
  assumes "grouped cols m"
  shows "distinct (map fst m)"
    and "\<forall>i < length cols. \<exists>g. map_of m (cols ! i) = Some g \<and> i \<in> set (indices g)"
    and "\<forall>(c, g) \<in> set m. indices g = filter (\<lambda>i. cols ! i = c) [0..<length cols]
           \<and> sorted_wrt (<) (indices g) \<and> indices g \<noteq> [] \<and> next_idx g = 0"
    and "\<forall>(c, g) \<in> set m. \<forall>(c', g') \<in> set m. c \<noteq> c' \<longrightarrow> set (indices g) \<inter> set (indices g') = {}"
proof -
  show "distinct (map fst m)" using assms unfolding grouped_def by blast
  show "\<forall>i < length cols. \<exists>g. map_of m (cols ! i) = Some g \<and> i \<in> set (indices g)"
  proof (intro allI impI)
    fix i assume i: "i < length cols"
    from assms have "map_of m (cols ! i) =
            (if cols ! i \<in> set cols
             then Some \<lparr>indices = filter (\<lambda>j. cols ! j = cols ! i) [0..<length cols], next_idx = 0\<rparr>
             else None)"
      unfolding grouped_def by blast
    with i show "\<exists>g. map_of m (cols ! i) = Some g \<and> i \<in> set (indices g)" by simp
  qed
  have entry: "indices g = filter (\<lambda>i. cols ! i = c) [0..<length cols]
           \<and> sorted_wrt (<) (indices g) \<and> indices g \<noteq> [] \<and> next_idx g = 0"
    if "(c, g) \<in> set m" for c g
  proof -
    from grouped_entry[OF assms that]
    have e: "indices g = filter (\<lambda>i. cols ! i = c) [0..<length cols]" "next_idx g = 0"
      "c \<in> set cols" by simp_all
    have "sorted_wrt (<) (indices g)" unfolding e(1) by (simp add: sorted_wrt_filter)
    moreover have "indices g \<noteq> []"
      unfolding e(1) using e(3) by (auto simp: filter_empty_conv in_set_conv_nth)
    ultimately show ?thesis using e by simp
  qed
  then show "\<forall>(c, g) \<in> set m. indices g = filter (\<lambda>i. cols ! i = c) [0..<length cols]
           \<and> sorted_wrt (<) (indices g) \<and> indices g \<noteq> [] \<and> next_idx g = 0"
    by blast
  have disj: "set (indices g) \<inter> set (indices g') = {}"
    if "(c, g) \<in> set m" "(c', g') \<in> set m" "c \<noteq> c'" for c g c' g'
    using grouped_entry[OF assms that(1)] grouped_entry[OF assms that(2)] that(3) by auto
  then show "\<forall>(c, g) \<in> set m. \<forall>(c', g') \<in> set m. c \<noteq> c' \<longrightarrow>
      set (indices g) \<inter> set (indices g') = {}"
    by blast
qed

text \<open>
  C10. After a successful \<^verbatim>\<open>load_tile_images\<close> the tile list and the list of average colours
  have the same length, at least 1; the colour at each position is \<^verbatim>\<open>get_average_rgb\<close> of the
  tile at that position, and every tile has the requested size. Grouping these colours
  partitions the positions: the keys are distinct, every position lies in the group of its
  colour, the groups of different colours are disjoint, and each group lists exactly the
  positions of its colour, in increasing order, with cursor 0.
\<close>

theorem load_tile_images_invariants:
  assumes "fst (load_tile_images rs source ts) = Inr (tiles, cols)"
  shows "length tiles = length cols \<and> 1 \<le> length tiles
       \<and> (\<forall>i < length tiles. cols ! i = get_average_rgb (tiles ! i)
             \<and> width (tiles ! i) = fst ts \<and> height (tiles ! i) = snd ts
             \<and> length (pixels (tiles ! i)) = fst ts * snd ts)
       \<and> distinct (map fst (group_tiles cols))
       \<and> (\<forall>i < length tiles. \<exists>g. map_of (group_tiles cols) (cols ! i) = Some g
             \<and> i \<in> set (indices g))
       \<and> (\<forall>(c, g) \<in> set (group_tiles cols).
             indices g = filter (\<lambda>i. cols ! i = c) [0..<length cols]
             \<and> sorted_wrt (<) (indices g) \<and> indices g \<noteq> [] \<and> next_idx g = 0)
       \<and> (\<forall>(c, g) \<in> set (group_tiles cols). \<forall>(c', g') \<in> set (group_tiles cols).
             c \<noteq> c' \<longrightarrow> set (indices g) \<inter> set (indices g') = {})"
proof -
  from load_tile_images_Inr[OF assms] obtain S where S: "S \<noteq> []"
    "\<forall>e \<in> set S. survives rs ts (is_zip source) e"
    "tiles = map (\<lambda>e. fst (the (load_one rs ts e))) S"
    "cols = map (\<lambda>e. snd (the (load_one rs ts e))) S"
    by blast
  have len: "length tiles = length cols" "1 \<le> length tiles"
    using S(1,3,4) by (simp_all add: Suc_le_eq)
  have each: "cols ! i = get_average_rgb (tiles ! i)
             \<and> width (tiles ! i) = fst ts \<and> height (tiles ! i) = snd ts
             \<and> length (pixels (tiles ! i)) = fst ts * snd ts" if "i < length tiles" for i
  proof -
    from that S(3) have i: "i < length S" by simp
    then have "survives rs ts (is_zip source) (S ! i)" using S(2) by simp
    then obtain img where "load_one rs ts (S ! i) = Some (img, get_average_rgb img)"
      "width img = fst ts" "height img = snd ts" "length (pixels img) = fst ts * snd ts"
      by (rule survives_loaded)
    then show ?thesis using i S(3,4) by simp
  qed
  note p = grouped_partition[OF group_tiles_grouped[of cols]]
  from len each p show ?thesis unfolding len(1) by blast
qed

theorem load_tile_images_invariants_witness:
  "fst (load_tile_images first_pixel sample_directory (1, 1)) =
     Inr ([\<lparr>width = 1, height = 1, pixels = [(0, 0, 0)]\<rparr>,
           \<lparr>width = 1, height = 1, pixels = [(9, 9, 9)]\<rparr>], [(0, 0, 0), (9, 9, 9)])
   \<and> distinct (map fst (group_tiles [(0, 0, 0), (9, 9, 9)]))"
proof -
  have l: "fst (load_tile_images first_pixel sample_directory (1, 1)) =
     Inr ([\<lparr>width = 1, height = 1, pixels = [(0, 0, 0)]\<rparr>,
           \<lparr>width = 1, height = 1, pixels = [(9, 9, 9)]\<rparr>], [(0, 0, 0), (9, 9, 9)])"
    by (simp only: sample_loaded fst_conv)
  from load_tile_images_invariants[OF l] l show ?thesis by blast
qed

section \<open>The nearest-colour index\<close>

lemma nearest_scan_nearest:
  assumes "points \<noteq> []"
  shows "nearest_index points target (nearest_scan target points)"
  using assms
proof (induction target points rule: nearest_scan.induct)
  case (1 target)
  then show ?case by simp
next
  case (2 target p)
  then show ?case by (simp add: nearest_index_def)
next
  case (3 target p q ps)
  let ?i = "nearest_scan target (q # ps)"
  from 3 have IH: "nearest_index (q # ps) target ?i" by simp
  then have i: "?i < length (q # ps)"
    and best: "\<And>j. j < length (q # ps) \<Longrightarrow> dist2 ((q # ps) ! ?i) target \<le> dist2 ((q # ps) ! j) target"
    by (simp_all add: nearest_index_def)
  show ?case
  proof (cases "dist2 p target \<le> dist2 ((q # ps) ! ?i) target")
    case True
    have "dist2 p target \<le> dist2 ((p # q # ps) ! j) target" if "j < length (p # q # ps)" for j
    proof (cases j)
      case 0
      then show ?thesis by simp
    next
      case (Suc k)
      with that have "k < length (q # ps)" by simp
      from best[OF this] True Suc show ?thesis by simp
    qed
    with True show ?thesis by (simp add: nearest_index_def Let_def)
  next
    case False
    have "dist2 ((q # ps) ! ?i) target \<le> dist2 ((p # q # ps) ! j) target"
      if "j < length (p # q # ps)" for j
    proof (cases j)
      case 0
      with False show ?thesis by simp
    next
      case (Suc k)
      with that have "k < length (q # ps)" by simp
      from best[OF this] Suc show ?thesis by simp
    qed
    with False i show ?thesis by (simp add: nearest_index_def Let_def)
  qed
qed

lemma euclidean_mono: "dist2 a t \<le> dist2 b t \<Longrightarrow> euclidean a t \<le> euclidean b t"
  by (simp add: euclidean_def)

text \<open>
  C5. For every non-empty list of indexed colours and every query colour, the query of the
  index returns a position of the list, and the colour at that position is at minimum
  Euclidean distance from the query: no indexed colour is nearer.
\<close>

theorem KDTree_query_nearest:
  assumes "points \<noteq> []"
  shows "\<exists>i. KDTree points target = Some i \<and> i < length points
           \<and> list_get points i = Inr (points ! i)
           \<and> (\<forall>c \<in> set points. euclidean (points ! i) target \<le> euclidean c target)"
proof -
  let ?i = "nearest_scan target points"
  from nearest_scan_nearest[OF assms, of target]
  have i: "?i < length points"
    and best: "\<And>j. j < length points \<Longrightarrow> dist2 (points ! ?i) target \<le> dist2 (points ! j) target"
    by (simp_all add: nearest_index_def)
  have "euclidean (points ! ?i) target \<le> euclidean c target" if "c \<in> set points" for c
  proof -
    from that obtain j where "j < length points" "points ! j = c" by (auto simp: in_set_conv_nth)
    with best[of j] show ?thesis by (auto intro: euclidean_mono)
  qed
  with i assms show ?thesis by (simp add: KDTree_def list_get_def)
qed

theorem KDTree_query_nearest_witness:
  "KDTree [(1, 1, 1), (9, 9, 9)] (8, 8, 8) = Some 1
   \<and> euclidean (9, 9, 9) (8, 8, 8) \<le> euclidean (1, 1, 1) (8, 8, 8)"
proof -
  have e: "KDTree [(1, 1, 1), (9, 9, 9)] (8, 8, 8) = Some 1"
    by (simp add: KDTree_def dist2_def)
  have "[(1, 1, 1), (9, 9, 9) :: color] \<noteq> []" by simp
  from KDTree_query_nearest[OF this, of "(8, 8, 8)"] e show ?thesis by auto
qed

lemma nearest_scan_first:
  assumes "j < nearest_scan target points"
  shows "dist2 (points ! nearest_scan target points) target < dist2 (points ! j) target"
  using assms
proof (induction target points arbitrary: j rule: nearest_scan.induct)
  case (1 target)
  then show ?case by simp
next
  case (2 target p)
  then show ?case by simp
next
  case (3 target p q ps)
  let ?i = "nearest_scan target (q # ps)"
  show ?case
  proof (cases "dist2 p target \<le> dist2 ((q # ps) ! ?i) target")
    case True
    with "3.prems" show ?thesis by (simp add: Let_def)
  next
    case False
    then have r: "nearest_scan target (p # q # ps) = Suc ?i" by (simp add: Let_def)
    show ?thesis
    proof (cases j)
      case 0
      with False r show ?thesis by simp
    next
      case (Suc k)
      with "3.prems" r have "k < ?i" by simp
      from "3.IH"[OF this] Suc r show ?thesis by simp
    qed
  qed
qed

text \<open>
  With the index of the specification, which answers with the first nearest entry, the tile
  that NearestMatch returns is the first tile of its colour.
\<close>

lemma first_tile_with_scanning_index:
  assumes "tiles \<noteq> []" "length avg_colors = length tiles"
  shows "\<exists>i < length tiles. find_best_match_tile target (KDTree avg_colors) tiles = Inr (tiles ! i)
           \<and> first_tile_of_color (avg_colors ! i) tiles avg_colors = Some (tiles ! i)"
proof -
  let ?i = "nearest_scan target avg_colors"
  have ne: "avg_colors \<noteq> []" using assms by auto
  from nearest_scan_nearest[OF ne, of target] assms(2)
  have i: "?i < length tiles" by (simp add: nearest_index_def)
  have "avg_colors ! j \<noteq> avg_colors ! ?i" if "j < ?i" for j
    using nearest_scan_first[OF that] by auto
  then have "first_tile_of_color (avg_colors ! ?i) tiles avg_colors = Some (tiles ! ?i)"
    using first_tile_of_color_least[OF i assms(2)] by blast
  moreover have "find_best_match_tile target (KDTree avg_colors) tiles = Inr (tiles ! ?i)"
    using ne i by (simp add: find_best_match_tile_def KDTree_def list_get_def)
  ultimately show ?thesis using i by blast
qed

section \<open>The canvas\<close>

lemma paste_size [simp]:
  "width (paste canvas im box) = width canvas" "height (paste canvas im box) = height canvas"
  "length (pixels (paste canvas im box)) = length (pixels canvas)"
  by (cases box; simp add: paste_def)+

lemma paste_full: "full canvas \<Longrightarrow> full (paste canvas im box)"
  by (simp add: full_def)

lemma cell_index:
  fixes x y w :: nat
  assumes "x < w"
  shows "(y * w + x) mod w = x" "(y * w + x) div w = y"
  using assms by simp_all

lemma pixel_index_bound:
  fixes x y w h :: nat
  assumes "x < w" "y < h"
  shows "y * w + x < w * h"
proof -
  have "y * w + x < y * w + w" using assms(1) by simp
  also have "\<dots> = (Suc y) * w" by simp
  also have "\<dots> \<le> h * w" using assms(2) by (intro mult_le_mono1) simp
  finally show ?thesis by (simp add: mult.commute)
qed

lemma paste_pixel:
  assumes "full canvas" "x < width canvas" "y < height canvas"
  shows "pixel_at (paste canvas im (left, upper)) x y =
           (if left \<le> x \<and> x < left + width im \<and> upper \<le> y \<and> y < upper + height im
            then pixel_at im (x - left) (y - upper) else pixel_at canvas x y)"
proof -
  have "y * width canvas + x < length (pixels canvas)"
    using assms pixel_index_bound[of x "width canvas" y "height canvas"] by (simp add: full_def)
  then show ?thesis
    using assms(2) by (simp add: pixel_at_def paste_def cell_index Let_def)
qed

lemma new_image_facts:
  "width (new_image (w, h)) = w" "height (new_image (w, h)) = h" "full (new_image (w, h))"
  by (simp_all add: new_image_def full_def)

lemma paste_all_Cons:
  "paste_all canvas (tw, th) (((r, c), t) # placed) =
     paste_all (paste canvas t (c * tw, r * th)) (tw, th) placed"
  by (simp add: paste_all_def)

lemma paste_all_size:
  "width (paste_all canvas tsz placed) = width canvas"
  "height (paste_all canvas tsz placed) = height canvas"
  "length (pixels (paste_all canvas tsz placed)) = length (pixels canvas)"
proof -
  have "width (paste_all canvas tsz placed) = width canvas
      \<and> height (paste_all canvas tsz placed) = height canvas
      \<and> length (pixels (paste_all canvas tsz placed)) = length (pixels canvas)"
    unfolding paste_all_def
    by (induction placed arbitrary: canvas) (auto split: prod.splits)
  then show "width (paste_all canvas tsz placed) = width canvas"
    "height (paste_all canvas tsz placed) = height canvas"
    "length (pixels (paste_all canvas tsz placed)) = length (pixels canvas)"
    by simp_all
qed

lemma in_cell_iff:
  fixes x c tw :: nat
  assumes "0 < tw"
  shows "c * tw \<le> x \<and> x < c * tw + tw \<longleftrightarrow> x div tw = c"
proof
  assume h: "c * tw \<le> x \<and> x < c * tw + tw"
  then have "c \<le> x div tw" using assms by (simp add: less_eq_div_iff_mult_less_eq)
  moreover have "x div tw < Suc c" using h assms by (simp add: div_less_iff_less_mult)
  ultimately show "x div tw = c" by simp
next
  assume "x div tw = c"
  then have "c * tw = x - x mod tw" by (metis minus_mod_eq_div_mult)
  moreover have "x mod tw < tw" using assms by simp
  moreover have "x mod tw \<le> x" by simp
  ultimately show "c * tw \<le> x \<and> x < c * tw + tw" by linarith
qed

lemma in_cell_offset:
  fixes x tw :: nat
  shows "x - (x div tw) * tw = x mod tw"
  by (simp add: minus_div_mult_eq_mod)

lemma paste_cell_pixel:
  assumes "full canvas" "x < width canvas" "y < height canvas" "0 < tw" "0 < th"
    and "width t = tw" "height t = th"
  shows "pixel_at (paste canvas t (c * tw, r * th)) x y =
           (if (y div th, x div tw) = (r, c) then pixel_at t (x mod tw) (y mod th)
            else pixel_at canvas x y)"
proof -
  have "(c * tw \<le> x \<and> x < c * tw + width t \<and> r * th \<le> y \<and> y < r * th + height t)
      \<longleftrightarrow> (y div th, x div tw) = (r, c)"
    using in_cell_iff[OF assms(4), of c x] in_cell_iff[OF assms(5), of r y] assms(6,7) by auto
  moreover have "(y div th, x div tw) = (r, c) \<Longrightarrow> x - c * tw = x mod tw \<and> y - r * th = y mod th"
    using in_cell_offset[of x tw] in_cell_offset[of y th] by auto
  ultimately show ?thesis
    unfolding paste_pixel[OF assms(1,2,3)] by auto
qed

lemma paste_all_untouched:
  assumes "full canvas" "x < width canvas" "y < height canvas" "0 < tw" "0 < th"
    and "length ts = length cells" "\<forall>t \<in> set ts. width t = tw \<and> height t = th"
    and "(y div th, x div tw) \<notin> set cells"
  shows "pixel_at (paste_all canvas (tw, th) (zip cells ts)) x y = pixel_at canvas x y"
  using assms
proof (induction cells arbitrary: canvas ts)
  case Nil
  then show ?case by (simp add: paste_all_def)
next
  case (Cons cell cells)
  obtain r c where cell: "cell = (r, c)" by (cases cell)
  from Cons.prems(6) obtain t ts' where ts: "ts = t # ts'" by (cases ts) auto
  let ?cv = "paste canvas t (c * tw, r * th)"
  have t: "width t = tw" "height t = th" using Cons.prems(7) ts by simp_all
  have "pixel_at (paste_all ?cv (tw, th) (zip cells ts')) x y = pixel_at ?cv x y"
  proof (rule Cons.IH)
    show "full ?cv" using Cons.prems(1) by (rule paste_full)
    show "x < width ?cv" "y < height ?cv" using Cons.prems(2,3) by simp_all
    show "0 < tw" "0 < th" by fact+
    show "length ts' = length cells" using Cons.prems(6) ts by simp
    show "\<forall>t \<in> set ts'. width t = tw \<and> height t = th" using Cons.prems(7) ts by simp
    show "(y div th, x div tw) \<notin> set cells" using Cons.prems(8) by simp
  qed
  also have "\<dots> = pixel_at canvas x y"
    using paste_cell_pixel[OF Cons.prems(1,2,3,4,5) t, of c r] Cons.prems(8) cell by auto
  finally show ?case by (simp add: cell ts paste_all_Cons)
qed

lemma paste_all_pixel:
  assumes "full canvas" "x < width canvas" "y < height canvas" "0 < tw" "0 < th"
    and "length ts = length cells" "\<forall>t \<in> set ts. width t = tw \<and> height t = th"
    and "distinct cells" "k < length cells" "cells ! k = (y div th, x div tw)"
  shows "pixel_at (paste_all canvas (tw, th) (zip cells ts)) x y
           = pixel_at (ts ! k) (x mod tw) (y mod th)"
  using assms
proof (induction cells arbitrary: canvas ts k)
  case Nil
  then show ?case by simp
next
  case (Cons cell cells)
  obtain r c where cell: "cell = (r, c)" by (cases cell)
  from Cons.prems(6) obtain t ts' where ts: "ts = t # ts'" by (cases ts) auto
  let ?cv = "paste canvas t (c * tw, r * th)"
  have t: "width t = tw" "height t = th" using Cons.prems(7) ts by simp_all
  have cv: "full ?cv" "x < width ?cv" "y < height ?cv"
    using Cons.prems(1,2,3) by (simp_all add: paste_full)
  have len: "length ts' = length cells" using Cons.prems(6) ts by simp
  have sz: "\<forall>t \<in> set ts'. width t = tw \<and> height t = th" using Cons.prems(7) ts by simp
  have step: "paste_all canvas (tw, th) (zip (cell # cells) ts)
      = paste_all ?cv (tw, th) (zip cells ts')"
    by (simp add: cell ts paste_all_Cons)
  show ?case
  proof (cases k)
    case 0
    with Cons.prems(10) cell have here: "(y div th, x div tw) = (r, c)" by simp
    with Cons.prems(8) cell have "(y div th, x div tw) \<notin> set cells" by auto
    from paste_all_untouched[OF cv Cons.prems(4,5) len sz this]
    have "pixel_at (paste_all ?cv (tw, th) (zip cells ts')) x y = pixel_at ?cv x y" .
    also have "\<dots> = pixel_at t (x mod tw) (y mod th)"
      using paste_cell_pixel[OF Cons.prems(1,2,3,4,5) t, of c r] here by simp
    finally show ?thesis using 0 ts step by simp
  next
    case (Suc j)
    have "pixel_at (paste_all ?cv (tw, th) (zip cells ts')) x y
        = pixel_at (ts' ! j) (x mod tw) (y mod th)"
    proof (rule Cons.IH[OF cv Cons.prems(4,5) len sz])
      show "distinct cells" using Cons.prems(8) by simp
      show "j < length cells" using Cons.prems(9) Suc by simp
      show "cells ! j = (y div th, x div tw)" using Cons.prems(10) Suc by simp
    qed
    then show ?thesis using Suc ts step by simp
  qed
qed

lemma select_all_Cons_Inr:
  assumes "select_all sel st (q # qs) = (map Inr ts, st')"
  obtains t ts' st1 where "ts = t # ts'" "sel st q = (Inr t, st1)"
    "select_all sel st1 qs = (map Inr ts', st')"
proof -
  obtain res st1 where 1: "sel st q = (res, st1)" by (cases "sel st q")
  obtain rs st2 where 2: "select_all sel st1 qs = (rs, st2)" by (cases "select_all sel st1 qs")
  from assms 1 2 have "res # rs = map Inr ts" "st2 = st'" by simp_all
  then obtain t ts' where "ts = t # ts'" "res = Inr t" "rs = map Inr ts'"
    by (cases ts) auto
  with 1 2 \<open>st2 = st'\<close> that show ?thesis by simp
qed

lemma paint_cells_paste_all:
  assumes "\<forall>(r, c) \<in> set cells. c < width base \<and> r < height base"
    and "select_all sel st (map (cell_color base) cells) = (map Inr ts, st')"
  shows "paint_cells sel base (tw, th) cells st canvas =
           (Inr (paste_all canvas (tw, th) (zip cells ts)), st')"
  using assms
proof (induction cells arbitrary: st canvas ts)
  case Nil
  then show ?case by (simp add: paste_all_def)
next
  case (Cons cell cells)
  obtain r c where cell: "cell = (r, c)" by (cases cell)
  from Cons.prems(1) cell have inr: "c < width base" "r < height base" by simp_all
  from Cons.prems(2)
  have "select_all sel st (cell_color base cell # map (cell_color base) cells) = (map Inr ts, st')"
    by simp
  then obtain t ts' st1 where
    ts: "ts = t # ts'" and sel: "sel st (cell_color base cell) = (Inr t, st1)"
    and rest: "select_all sel st1 (map (cell_color base) cells) = (map Inr ts', st')"
    by (rule select_all_Cons_Inr)
  have px: "getpixel base (c, r) = Inr (cell_color base (r, c))"
    using inr by (simp add: getpixel_def cell_color_def)
  have "paint_cells sel base (tw, th) cells st1 (paste canvas t (c * tw, r * th)) =
           (Inr (paste_all (paste canvas t (c * tw, r * th)) (tw, th) (zip cells ts')), st')"
    using Cons.prems(1) rest by (intro Cons.IH) auto
  then show ?case using px sel cell ts by (simp add: paste_all_Cons)
qed

lemma grid_cells_facts:
  "length (grid_cells gw gh) = gw * gh" "distinct (grid_cells gw gh)"
  "set (grid_cells gw gh) = {..<gh} \<times> {..<gw}"
  by (auto simp: grid_cells_def distinct_product mult.commute)

lemma grid_cells_nth:
  assumes "r < gh" "c < gw"
  shows "r * gw + c < length (grid_cells gw gh)" "grid_cells gw gh ! (r * gw + c) = (r, c)"
proof -
  have b: "r * gw + c < gh * gw"
    using pixel_index_bound[OF assms(2,1)] by (simp add: mult.commute)
  then show "r * gw + c < length (grid_cells gw gh)" by (simp add: grid_cells_def)
  from b have "List.product [0..<gh] [0..<gw] ! (r * gw + c)
      = ([0..<gh] ! ((r * gw + c) div gw), [0..<gw] ! ((r * gw + c) mod gw))"
    using product_nth[of "r * gw + c" "[0..<gh]" "[0..<gw]"] by simp
  then show "grid_cells gw gh ! (r * gw + c) = (r, c)"
    using assms by (simp add: grid_cells_def)
qed

lemma region_iff:
  assumes "0 < tw" "0 < th"
  shows "(x, y) \<in> region (tw, th) (r, c) \<longleftrightarrow> (y div th, x div tw) = (r, c)"
  using in_cell_iff[OF assms(1), of c x] in_cell_iff[OF assms(2), of r y]
  by (auto simp: region_def)

lemma regions_disjoint:
  assumes "0 < tw" "0 < th" "cell \<noteq> cell'"
  shows "region (tw, th) cell \<inter> region (tw, th) cell' = {}"
proof -
  obtain r c r' c' where c: "cell = (r, c)" "cell' = (r', c')" by (cases cell, cases cell')
  show ?thesis
  proof (rule ccontr)
    assume "region (tw, th) cell \<inter> region (tw, th) cell' \<noteq> {}"
    then obtain x y where "(x, y) \<in> region (tw, th) cell" "(x, y) \<in> region (tw, th) cell'"
      by auto
    then have "(r, c) = (r', c')" unfolding c region_iff[OF assms(1,2)] by simp
    with assms(3) c show False by simp
  qed
qed

lemma regions_cover:
  assumes "0 < tw" "0 < th"
  shows "(\<Union>cell \<in> set (grid_cells gw gh). region (tw, th) cell) = {..<gw * tw} \<times> {..<gh * th}"
proof (rule set_eqI)
  fix p :: "nat \<times> nat"
  obtain x y where p: "p = (x, y)" by (cases p)
  have "p \<in> (\<Union>cell \<in> set (grid_cells gw gh). region (tw, th) cell)
      \<longleftrightarrow> (\<exists>r c. r < gh \<and> c < gw \<and> (x, y) \<in> region (tw, th) (r, c))"
    by (auto simp: grid_cells_facts p)
  also have "\<dots> \<longleftrightarrow> y div th < gh \<and> x div tw < gw"
    unfolding region_iff[OF assms] by auto
  also have "\<dots> \<longleftrightarrow> y < gh * th \<and> x < gw * tw"
    using assms by (simp add: div_less_iff_less_mult)
  also have "\<dots> \<longleftrightarrow> p \<in> {..<gw * tw} \<times> {..<gh * th}"
    by (auto simp: p)
  finally show "p \<in> (\<Union>cell \<in> set (grid_cells gw gh). region (tw, th) cell)
      \<longleftrightarrow> p \<in> {..<gw * tw} \<times> {..<gh * th}" .
qed

lemma nearest_match_selects:
  assumes "tiles \<noteq> []" "\<forall>q i. kd q = Some i \<longrightarrow> i < length tiles"
  shows "\<exists>ts. select_all (nearest_match kd tiles) st qs = (map Inr ts, st)
           \<and> length ts = length qs \<and> set ts \<subseteq> set tiles"
proof -
  let ?pos = "\<lambda>q. case kd q of None \<Rightarrow> 0 | Some i \<Rightarrow> i"
  have pos: "?pos q < length tiles" for q
  proof (cases "kd q")
    case None
    then show ?thesis using assms(1) by simp
  next
    case (Some i)
    with assms(2) have "i < length tiles" by blast
    then show ?thesis using Some by simp
  qed
  have one: "find_best_match_tile q kd tiles = Inr (tiles ! ?pos q)" for q
    using assms pos[of q] by (cases "kd q") (auto simp: find_best_match_tile_def list_get_def)
  have "select_all (nearest_match kd tiles) st qs = (map Inr (map (\<lambda>q. tiles ! ?pos q) qs), st)"
    by (simp add: select_all_nearest_match one comp_def)
  moreover have "set (map (\<lambda>q. tiles ! ?pos q) qs) \<subseteq> set tiles"
    using pos by auto
  ultimately show ?thesis by (intro exI[of _ "map (\<lambda>q. tiles ! ?pos q) qs"]) simp
qed

lemma valid_groups_update:
  assumes "valid_groups tiles m" "map_of m c = Some g" "indices g \<noteq> []"
  shows "valid_groups tiles (AList.update c (g\<lparr>next_idx := (next_idx g + 1) mod length (indices g)\<rparr>) m)"
proof -
  let ?g' = "g\<lparr>next_idx := (next_idx g + 1) mod length (indices g)\<rparr>"
  from assms(2) have in_m: "(c, g) \<in> set m" by (rule map_of_SomeD)
  have old: "(\<forall>i \<in> set (indices h). i < length tiles)
        \<and> (indices h \<noteq> [] \<longrightarrow> next_idx h < length (indices h))" if "(k, h) \<in> set m" for k h
    using assms(1) that unfolding valid_groups_def by blast
  have new: "(\<forall>i \<in> set (indices ?g'). i < length tiles)
        \<and> (indices ?g' \<noteq> [] \<longrightarrow> next_idx ?g' < length (indices ?g'))"
    using old[OF in_m] assms(3) by simp
  have "(k, h) \<in> set m \<or> (k, h) = (c, ?g')" if "(k, h) \<in> set (AList.update c ?g' m)" for k h
    using that by (induction m) (auto split: if_splits)
  with old new show ?thesis unfolding valid_groups_def by blast
qed

lemma cycling_match_step_valid:
  assumes "tiles \<noteq> []" "valid_groups tiles m" "\<forall>q i. kd q = Some i \<longrightarrow> i < length ucl"
  shows "\<exists>t m'. cycling_match kd ucl tiles m q = (Inr t, m') \<and> t \<in> set tiles
           \<and> valid_groups tiles m'"
proof (cases "kd q")
  case None
  from cycle_fallback[of kd q tiles m ucl] None assms(1,2) show ?thesis
    unfolding cycling_match_def by blast
next
  case (Some u)
  with assms(3) have u: "u < length ucl" by blast
  have first: "Inr (tiles ! 0) = list_get tiles 0" "tiles ! 0 \<in> set tiles"
    using assms(1) by (simp_all add: list_get_def)
  show ?thesis
  proof (cases "map_of m (ucl ! u)")
    case None
    then have "cycling_match kd ucl tiles m q = (Inr (tiles ! 0), m)"
      using Some u first by (simp add: cycling_match_def find_best_match_tile_cycle_def list_get_def)
    with first assms(2) show ?thesis by blast
  next
    case g: (Some g)
    show ?thesis
    proof (cases "indices g = []")
      case True
      then have "cycling_match kd ucl tiles m q = (Inr (tiles ! 0), m)"
        using Some u g first
        by (simp add: cycling_match_def find_best_match_tile_cycle_def list_get_def)
      with first assms(2) show ?thesis by blast
    next
      case False
      from g have "(ucl ! u, g) \<in> set m" by (rule map_of_SomeD)
      with assms(2) False have cur: "next_idx g < length (indices g)"
        and rng: "\<forall>i \<in> set (indices g). i < length tiles"
        unfolding valid_groups_def by blast+
      then have pos: "indices g ! next_idx g < length tiles" by simp
      have "cycling_match kd ucl tiles m q =
          (Inr (tiles ! (indices g ! next_idx g)),
           AList.update (ucl ! u) (g\<lparr>next_idx := (next_idx g + 1) mod length (indices g)\<rparr>) m)"
        using cycle_step[of kd q u ucl "ucl ! u" m g tiles] Some u g False cur pos
        by (simp add: cycling_match_def)
      moreover have "tiles ! (indices g ! next_idx g) \<in> set tiles" using pos by simp
      ultimately show ?thesis using valid_groups_update[OF assms(2) g False] by blast
    qed
  qed
qed

lemma cycling_match_selects:
  assumes "tiles \<noteq> []" "valid_groups tiles m" "\<forall>q i. kd q = Some i \<longrightarrow> i < length ucl"
  shows "\<exists>ts m'. select_all (cycling_match kd ucl tiles) m qs = (map Inr ts, m')
           \<and> length ts = length qs \<and> set ts \<subseteq> set tiles \<and> valid_groups tiles m'"
  using assms(2)
proof (induction qs arbitrary: m)
  case Nil
  then show ?case by simp
next
  case (Cons q qs)
  from cycling_match_step_valid[OF assms(1) Cons.prems assms(3), of q]
  obtain t m1 where 1: "cycling_match kd ucl tiles m q = (Inr t, m1)" "t \<in> set tiles"
    "valid_groups tiles m1" by blast
  from Cons.IH[OF 1(3)] obtain ts m' where
    2: "select_all (cycling_match kd ucl tiles) m1 qs = (map Inr ts, m')"
    "length ts = length qs" "set ts \<subseteq> set tiles" "valid_groups tiles m'" by blast
  have "select_all (cycling_match kd ucl tiles) m (q # qs) = (map Inr (t # ts), m')"
    using 1(1) 2(1) by simp
  moreover have "length (t # ts) = length (q # qs)" "set (t # ts) \<subseteq> set tiles"
    using 1(2) 2(2,3) by simp_all
  ultimately show ?case using 2(4) by blast
qed

lemma assemble_canvas:
  assumes tw: "0 < tile_w" and th: "0 < tile_h"
    and base: "width base_small = grid_w" "height base_small = grid_h"
    and sel: "select_all sel st (map (cell_color base_small) (grid_cells grid_w grid_h))
                = (map Inr selected, st')"
    and len: "length selected = grid_w * grid_h"
    and sz: "\<forall>t \<in> set selected. width t = tile_w \<and> height t = tile_h"
  defines "canvas \<equiv> paste_all (new_image (grid_w * tile_w, grid_h * tile_h)) (tile_w, tile_h)
                      (zip (grid_cells grid_w grid_h) selected)"
  shows "assemble sel base_small (grid_w, grid_h) (tile_w, tile_h) st = (Inr canvas, st')"
    and "width canvas = grid_w * tile_w" "height canvas = grid_h * tile_h"
    and "length (pixels canvas) = (grid_w * tile_w) * (grid_h * tile_h)"
    and "\<forall>r < grid_h. \<forall>c < grid_w. grid_cells grid_w grid_h ! (r * grid_w + c) = (r, c)
           \<and> (\<forall>y < tile_h. \<forall>x < tile_w.
                 pixel_at canvas (c * tile_w + x) (r * tile_h + y)
                   = pixel_at (selected ! (r * grid_w + c)) x y)"
proof -
  let ?blank = "new_image (grid_w * tile_w, grid_h * tile_h)"
  let ?cells = "grid_cells grid_w grid_h"
  have inr: "\<forall>(r, c) \<in> set ?cells. c < width base_small \<and> r < height base_small"
    using base by (auto simp: grid_cells_facts)
  show "assemble sel base_small (grid_w, grid_h) (tile_w, tile_h) st = (Inr canvas, st')"
    unfolding assemble_def canvas_def
    using paint_cells_paste_all[OF inr sel, of tile_w tile_h ?blank] by (simp add: Let_def)
  show w: "width canvas = grid_w * tile_w" and h: "height canvas = grid_h * tile_h"
    unfolding canvas_def by (simp_all add: paste_all_size new_image_facts)
  show "length (pixels canvas) = (grid_w * tile_w) * (grid_h * tile_h)"
    unfolding canvas_def using new_image_facts(3)[of "grid_w * tile_w" "grid_h * tile_h"]
    by (simp add: paste_all_size full_def new_image_facts)
  show "\<forall>r < grid_h. \<forall>c < grid_w. grid_cells grid_w grid_h ! (r * grid_w + c) = (r, c)
           \<and> (\<forall>y < tile_h. \<forall>x < tile_w.
                 pixel_at canvas (c * tile_w + x) (r * tile_h + y)
                   = pixel_at (selected ! (r * grid_w + c)) x y)"
  proof (intro allI impI conjI)
    fix r c assume rc: "r < grid_h" "c < grid_w"
    show nth: "?cells ! (r * grid_w + c) = (r, c)" using grid_cells_nth(2)[OF rc] .
    fix y x assume yx: "y < tile_h" "x < tile_w"
    let ?X = "c * tile_w + x" and ?Y = "r * tile_h + y"
    have X: "?X < width ?blank"
      using pixel_index_bound[OF yx(2) rc(2)] by (simp add: new_image_facts mult.commute)
    have Y: "?Y < height ?blank"
      using pixel_index_bound[OF yx(1) rc(1)] by (simp add: new_image_facts mult.commute)
    have cell: "?cells ! (r * grid_w + c) = (?Y div tile_h, ?X div tile_w)"
      using nth cell_index(2)[OF yx(1), of r] cell_index(2)[OF yx(2), of c] by simp
    have "pixel_at canvas ?X ?Y = pixel_at (selected ! (r * grid_w + c)) (?X mod tile_w) (?Y mod tile_h)"
      unfolding canvas_def
    proof (rule paste_all_pixel[OF new_image_facts(3) X Y tw th])
      show "length selected = length ?cells" using len by (simp add: grid_cells_facts)
      show "\<forall>t \<in> set selected. width t = tile_w \<and> height t = tile_h" by fact
      show "distinct ?cells" by (rule grid_cells_facts)
      show "r * grid_w + c < length ?cells" using grid_cells_nth(1)[OF rc] .
      show "?cells ! (r * grid_w + c) = (?Y div tile_h, ?X div tile_w)" by fact
    qed
    then show "pixel_at canvas ?X ?Y = pixel_at (selected ! (r * grid_w + c)) x y"
      using cell_index(1)[OF yx(1), of r] cell_index(1)[OF yx(2), of c] by simp
  qed
qed

section \<open>From loading to assembling\<close>

text \<open>
  What the assembly needs is what a successful load and the grouping provide: a non-empty
  tile list, every tile of the positive tile size, and valid groups.
\<close>

lemma loaded_ready:
  assumes "fst (load_tile_images rs source ts) = Inr (tiles, cols)"
  shows "tiles \<noteq> []" "0 < fst ts" "0 < snd ts"
    "\<forall>t \<in> set tiles. width t = fst ts \<and> height t = snd ts"
    "valid_groups tiles (group_tiles cols)"
proof -
  from load_tile_images_Inr[OF assms] obtain S where S: "S \<noteq> []"
    "\<forall>e \<in> set S. survives rs ts (is_zip source) e"
    "tiles = map (\<lambda>e. fst (the (load_one rs ts e))) S"
    "cols = map (\<lambda>e. snd (the (load_one rs ts e))) S"
    by blast
  show "tiles \<noteq> []" using S(1,3) by simp
  have each: "width (fst (the (load_one rs ts e))) = fst ts
      \<and> height (fst (the (load_one rs ts e))) = snd ts \<and> 0 < fst ts \<and> 0 < snd ts"
    if "e \<in> set S" for e
  proof -
    from that S(2) have "survives rs ts (is_zip source) e" by blast
    then obtain img c where l: "load_one rs ts e = Some (img, c)" by (auto simp: survives_def)
    from load_one_Some[OF l] l show ?thesis by simp
  qed
  from S(1) obtain e where "e \<in> set S" by (cases S) auto
  from each[OF this] show "0 < fst ts" "0 < snd ts" by simp_all
  show "\<forall>t \<in> set tiles. width t = fst ts \<and> height t = snd ts"
    unfolding S(3) using each by auto
  have "length cols = length tiles" using S(3,4) by simp
  with group_tiles_grouped[of cols] show "valid_groups tiles (group_tiles cols)"
    by (rule grouped_valid_groups)
qed

text \<open>
  C1. In both scripts the canvas has exactly \<open>grid_w * tile_w\<close> by \<open>grid_h * tile_h\<close> pixels
  and is the blank canvas with one selected tile pasted per grid cell, the cells taken in
  row-major order and the tile of cell \<open>(r, c)\<close> pasted at offset \<open>(c * tile_w, r * tile_h)\<close>:
  every pixel of the region of a cell is the corresponding pixel of the tile selected for
  that cell. The regions of different cells are disjoint and together they are the whole
  canvas.
\<close>

theorem mosaic_canvas:
  fixes sel :: "color_map \<Rightarrow> color \<Rightarrow> (error + image) \<times> color_map"
  assumes "0 < tile_w" and "0 < tile_h"
    and "width base_small = grid_w" and "height base_small = grid_h"
    and "tiles \<noteq> []" and "\<forall>t \<in> set tiles. width t = tile_w \<and> height t = tile_h"
    and "sel = nearest_match kd tiles \<and> (\<forall>q i. kd q = Some i \<longrightarrow> i < length tiles)
       \<or> sel = cycling_match kd ucl tiles \<and> valid_groups tiles st
           \<and> (\<forall>q i. kd q = Some i \<longrightarrow> i < length ucl)"
  shows "\<exists>canvas selected st'.
           assemble sel base_small (grid_w, grid_h) (tile_w, tile_h) st = (Inr canvas, st')
         \<and> select_all sel st (map (cell_color base_small) (grid_cells grid_w grid_h))
             = (map Inr selected, st')
         \<and> canvas = paste_all (new_image (grid_w * tile_w, grid_h * tile_h)) (tile_w, tile_h)
                      (zip (grid_cells grid_w grid_h) selected)
         \<and> length selected = grid_w * grid_h \<and> set selected \<subseteq> set tiles
         \<and> width canvas = grid_w * tile_w \<and> height canvas = grid_h * tile_h
         \<and> length (pixels canvas) = (grid_w * tile_w) * (grid_h * tile_h)
         \<and> (\<forall>r < grid_h. \<forall>c < grid_w. grid_cells grid_w grid_h ! (r * grid_w + c) = (r, c)
               \<and> (\<forall>y < tile_h. \<forall>x < tile_w.
                     pixel_at canvas (c * tile_w + x) (r * tile_h + y)
                       = pixel_at (selected ! (r * grid_w + c)) x y))
         \<and> (\<forall>cell \<in> set (grid_cells grid_w grid_h). \<forall>cell' \<in> set (grid_cells grid_w grid_h).
               cell \<noteq> cell' \<longrightarrow>
               region (tile_w, tile_h) cell \<inter> region (tile_w, tile_h) cell' = {})
         \<and> (\<Union>cell \<in> set (grid_cells grid_w grid_h). region (tile_w, tile_h) cell)
             = {..<grid_w * tile_w} \<times> {..<grid_h * tile_h}"
    (is "\<exists>canvas selected st'. ?P canvas selected st'")
proof -
  let ?qs = "map (cell_color base_small) (grid_cells grid_w grid_h)"
  have "\<exists>selected st'. select_all sel st ?qs = (map Inr selected, st')
      \<and> length selected = length ?qs \<and> set selected \<subseteq> set tiles"
  proof -
    from assms(7) consider
      (nearest) "sel = nearest_match kd tiles" "\<forall>q i. kd q = Some i \<longrightarrow> i < length tiles"
      | (cycling) "sel = cycling_match kd ucl tiles" "valid_groups tiles st"
          "\<forall>q i. kd q = Some i \<longrightarrow> i < length ucl"
      by blast
    then show ?thesis
    proof cases
      case nearest
      from nearest_match_selects[OF assms(5) nearest(2), of st ?qs] show ?thesis
        unfolding nearest(1) by blast
    next
      case cycling
      from cycling_match_selects[OF assms(5) cycling(2,3), of ?qs] show ?thesis
        unfolding cycling(1) by blast
    qed
  qed
  then obtain selected st' where sel: "select_all sel st ?qs = (map Inr selected, st')"
    and len: "length selected = grid_w * grid_h" and sub: "set selected \<subseteq> set tiles"
    by (auto simp: grid_cells_facts)
  have sz: "\<forall>t \<in> set selected. width t = tile_w \<and> height t = tile_h"
    using sub assms(6) by blast
  note a = assemble_canvas[OF assms(1,2,3,4) sel len sz]
  have d: "\<forall>cell \<in> set (grid_cells grid_w grid_h). \<forall>cell' \<in> set (grid_cells grid_w grid_h).
               cell \<noteq> cell' \<longrightarrow>
               region (tile_w, tile_h) cell \<inter> region (tile_w, tile_h) cell' = {}"
    using regions_disjoint[OF assms(1,2)] by blast
  note c = regions_cover[OF assms(1,2), of grid_w grid_h]
  let ?canvas = "paste_all (new_image (grid_w * tile_w, grid_h * tile_h)) (tile_w, tile_h)
                      (zip (grid_cells grid_w grid_h) selected)"
  have "?P ?canvas selected st'"
    by (intro conjI) (rule a sel len sub d c refl)+
  then show ?thesis by (intro exI)
qed

theorem mosaic_canvas_witness:
  "assemble (nearest_match black_or_not [tile_a, tile_c]) small_base (2, 1) (2, 1) two_groups
     = (Inr \<lparr>width = 4, height = 1, pixels = [(0, 0, 0), (2, 2, 2), (9, 9, 9), (9, 9, 9)]\<rparr>,
        two_groups)
   \<and> (\<exists>canvas st'.
         assemble (nearest_match black_or_not [tile_a, tile_c]) small_base (2, 1) (2, 1) two_groups
           = (Inr canvas, st')
         \<and> width canvas = 2 * 2 \<and> height canvas = 1 * 1
         \<and> length (pixels canvas) = (2 * 2) * (1 * 1))"
proof -
  have e: "assemble (nearest_match black_or_not [tile_a, tile_c]) small_base (2, 1) (2, 1)
      two_groups
     = (Inr \<lparr>width = 4, height = 1, pixels = [(0, 0, 0), (2, 2, 2), (9, 9, 9), (9, 9, 9)]\<rparr>,
        two_groups)"
    by code_simp
  have h: "(0::nat) < 2" "(0::nat) < 1" "width small_base = 2" "height small_base = 1"
    "[tile_a, tile_c] \<noteq> []" "\<forall>t \<in> set [tile_a, tile_c]. width t = 2 \<and> height t = 1"
    by (simp_all add: small_base_def tile_a_def tile_c_def)
  have s: "nearest_match black_or_not [tile_a, tile_c] = nearest_match black_or_not [tile_a, tile_c]
         \<and> (\<forall>q i. black_or_not q = Some i \<longrightarrow> i < length [tile_a, tile_c])
       \<or> nearest_match black_or_not [tile_a, tile_c] = cycling_match black_or_not [] [tile_a, tile_c]
           \<and> valid_groups [tile_a, tile_c] two_groups
           \<and> (\<forall>q i. black_or_not q = Some i \<longrightarrow> i < length ([] :: color list))"
    by (simp add: black_or_not_def)
  from mosaic_canvas[OF h s] obtain canvas selected st' where
    "assemble (nearest_match black_or_not [tile_a, tile_c]) small_base (2, 1) (2, 1) two_groups
       = (Inr canvas, st')"
    "width canvas = 2 * 2" "height canvas = 1 * 1" "length (pixels canvas) = (2 * 2) * (1 * 1)"
    by (elim exE conjE)
  then have "\<exists>canvas st'.
         assemble (nearest_match black_or_not [tile_a, tile_c]) small_base (2, 1) (2, 1) two_groups
           = (Inr canvas, st')
         \<and> width canvas = 2 * 2 \<and> height canvas = 1 * 1
         \<and> length (pixels canvas) = (2 * 2) * (1 * 1)"
    by (intro exI conjI)
  with e show ?thesis by (rule conjI)
qed

end
